theory Spec2Isabelle
  imports Main "HOL-Library.Multiset"
begin

section \<open>Characters and strings\<close>

text \<open>
  Tiles, patterns and racks are Python strings of single characters. The model uses
  \<^typ>\<open>char\<close> with the ASCII alphabet: \<open>str.isalpha\<close>, \<open>str.islower\<close>,
  \<open>str.upper\<close> and \<open>str.lower\<close> restricted to the letters A-Z and a-z. The blank marker
  \<open>'-'\<close> and the pattern wildcard \<open>'_'\<close> are not letters and are fixed by both case maps.
\<close>

definition isupper_c :: "char \<Rightarrow> bool" where
  "isupper_c c = (65 \<le> (of_char c :: nat) \<and> (of_char c :: nat) \<le> 90)"

definition islower_c :: "char \<Rightarrow> bool" where
  "islower_c c = (97 \<le> (of_char c :: nat) \<and> (of_char c :: nat) \<le> 122)"

definition isalpha_c :: "char \<Rightarrow> bool" where
  "isalpha_c c = (isupper_c c \<or> islower_c c)"

definition upper_c :: "char \<Rightarrow> char" where
  "upper_c c = (if islower_c c then char_of ((of_char c :: nat) - 32) else c)"

definition lower_c :: "char \<Rightarrow> char" where
  "lower_c c = (if isupper_c c then char_of ((of_char c :: nat) + 32) else c)"

definition upper_s :: "string \<Rightarrow> string" where
  "upper_s s = map upper_c s"

definition lower_s :: "string \<Rightarrow> string" where
  "lower_s s = map lower_c s"

text \<open>\<open>string.ascii_uppercase\<close>\<close>

definition ascii_uppercase :: string where
  "ascii_uppercase = ''ABCDEFGHIJKLMNOPQRSTUVWXYZ''"

section \<open>The board and the rule object\<close>

text \<open>
  A position is the pair \<open>[row, col]\<close> of Python integers; an addition is a letter with its
  position. A board cell (NumPy dtype \<open>U1\<close>) is either the empty string (\<open>None\<close>) or one
  character. The board is the 15x15 array, read at indices below 15.
\<close>

type_synonym pos = "int \<times> int"
type_synonym addition = "char \<times> pos"
type_synonym cell = "char option"
type_synonym board = "nat \<times> nat \<Rightarrow> cell"

record rule =
  scrabble_dictionary :: "string list"
  letter_points :: "char \<rightharpoonup> int"
  word_multiplier :: "nat \<times> nat \<Rightarrow> int"
  letter_multiplier :: "nat \<times> nat \<Rightarrow> int"

record game =
  rule :: rule
  board :: board

definition empty_grid :: board where
  "empty_grid = (\<lambda>_. None)"

definition start_pos :: pos where
  "start_pos = (7, 7)"

text \<open>
  NumPy indexing on an axis of length 15: an index in \<open>[-15, 15)\<close> is valid and a negative one
  counts from the end; anything else raises \<open>IndexError\<close>.
\<close>

definition np_valid :: "int \<Rightarrow> bool" where
  "np_valid i = (- 15 \<le> i \<and> i < 15)"

definition np_norm :: "int \<Rightarrow> nat" where
  "np_norm i = nat (if i < 0 then i + 15 else i)"

definition pos_valid :: "pos \<Rightarrow> bool" where
  "pos_valid p = (np_valid (fst p) \<and> np_valid (snd p))"

definition bget :: "board \<Rightarrow> pos \<Rightarrow> cell" where
  "bget b p = b (np_norm (fst p), np_norm (snd p))"

definition bset :: "board \<Rightarrow> pos \<Rightarrow> char \<Rightarrow> board" where
  "bset b p ch = b((np_norm (fst p), np_norm (snd p)) := Some ch)"

definition in_bounds :: "pos \<Rightarrow> bool" where
  "in_bounds p = (0 \<le> fst p \<and> fst p < 15 \<and> 0 \<le> snd p \<and> snd p < 15)"

text \<open>\<open>np.sum(self.board != '')\<close>\<close>

definition board_letter_count :: "board \<Rightarrow> nat" where
  "board_letter_count b =
     length (filter (\<lambda>p. b p \<noteq> None) (List.product [0..<15] [0..<15]))"

datatype error =
    NoLettersProvided
  | OutOfBounds int int
  | AlreadyOccupied int int
  | NotSingleLine
  | NotContinuous
  | FirstWordMustCoverStart
  | MustConnect
  | OccupiedBy int int char
  | InvalidWords "string list"
  | NoValidCombination "pos list"
  | IndexError

section \<open>Positional checks: \<open>Game._verify_word_addition\<close>\<close>

text \<open>\<open>np.unique\<close> returns the sorted distinct values, \<open>np.ptp\<close> the maximum minus the minimum.\<close>

definition np_unique :: "int list \<Rightarrow> int list" where
  "np_unique xs = sort (remdups xs)"

definition np_ptp :: "int list \<Rightarrow> int" where
  "np_ptp xs = Max (set xs) - Min (set xs)"

definition verify_word_addition :: "game \<Rightarrow> addition list \<Rightarrow> error + bool" where
  "verify_word_addition g additions =
     (if additions = [] then Inl NoLettersProvided
      else case find (\<lambda>(_, p). \<not> in_bounds p) additions of
        Some (_, (row, col)) \<Rightarrow> Inl (OutOfBounds row col)
      | None \<Rightarrow>
         (case find (\<lambda>(_, p). bget (board g) p \<noteq> None) additions of
            Some (_, (row, col)) \<Rightarrow> Inl (AlreadyOccupied row col)
          | None \<Rightarrow>
             (let unique_rows = np_unique (map (\<lambda>(_, p). fst p) additions);
                  unique_cols = np_unique (map (\<lambda>(_, p). snd p) additions)
              in if length unique_rows > 1 \<and> length unique_cols > 1 then Inl NotSingleLine
                 else if length unique_rows = 1 then
                   (if np_ptp (map (\<lambda>(_, p). snd p) additions) + 1 \<noteq> int (length additions)
                    then Inl NotContinuous else Inr True)
                 else
                   (if np_ptp (map (\<lambda>(_, p). fst p) additions) + 1 \<noteq> int (length additions)
                    then Inl NotContinuous else Inr True))))"

section \<open>Board-level checks: \<open>Game._check_board_valid\<close>\<close>

definition adj :: "pos list" where
  "adj = [(- 1, 0), (1, 0), (0, - 1), (0, 1)]"

definition touches_existing_word :: "game \<Rightarrow> addition list \<Rightarrow> bool" where
  "touches_existing_word g additions =
     (if additions = [] then False
      else let all_adj = concat (map (\<lambda>(_, (r, c)). map (\<lambda>(dr, dc). (r + dr, c + dc)) adj) additions);
               valid_adj = filter in_bounds all_adj
           in if valid_adj = [] then False
              else list_ex (\<lambda>p. bget (board g) p \<noteq> None) valid_adj)"

definition check_board_valid :: "game \<Rightarrow> addition list \<Rightarrow> error + bool" where
  "check_board_valid g additions =
     (if board_letter_count (board g) = 0 then
        (if \<not> list_ex (\<lambda>(_, p). fst p = fst start_pos \<and> snd p = snd start_pos) additions
         then Inl FirstWordMustCoverStart else Inr True)
      else if \<not> touches_existing_word g additions then Inl MustConnect
      else Inr True)"

section \<open>Word extraction: \<open>Game._extract_word_positions\<close>\<close>

text \<open>
  \<open>np.split(a, cuts)\<close> cuts \<open>a\<close> into \<open>a[0:c1], a[c1:c2], ..., a[ck:]\<close>.
\<close>

fun np_split_from :: "nat \<Rightarrow> 'a list \<Rightarrow> nat list \<Rightarrow> 'a list list" where
  "np_split_from p xs [] = [drop p xs]"
| "np_split_from p xs (c # cs) = take (c - p) (drop p xs) # np_split_from c xs cs"

definition np_split :: "'a list \<Rightarrow> nat list \<Rightarrow> 'a list list" where
  "np_split xs cuts = np_split_from 0 xs cuts"

text \<open>\<open>np.where(np.diff(occupied))[0] + 1\<close>: the indices at which the occupancy changes.\<close>

definition diff_cuts :: "bool list \<Rightarrow> nat list" where
  "diff_cuts occupied =
     map Suc (filter (\<lambda>i. occupied ! i \<noteq> occupied ! Suc i) [0..<length occupied - 1])"

text \<open>
  \<open>segments = np.split(np.arange(15), ...)\<close> and
  \<open>occupied_segments = [seg for seg in segments if occupied[seg[0]]]\<close>.
\<close>

definition occupied_segments :: "bool list \<Rightarrow> nat list list" where
  "occupied_segments occupied =
     filter (\<lambda>seg. occupied ! hd seg) (np_split [0..<15] (diff_cuts occupied))"

text \<open>
  The first occupied segment that overlaps the span of the additions
  (\<open>min_col <= seg[-1] and max_col >= seg[0]\<close>), as the loop with its \<open>break\<close> finds it;
  the result is the range \<open>seg[0] .. seg[-1]\<close>, kept when longer than one cell.
\<close>

definition main_segment :: "bool list \<Rightarrow> int \<Rightarrow> int \<Rightarrow> nat list list" where
  "main_segment occupied lo hi =
     (case find (\<lambda>seg. lo \<le> int (last seg) \<and> hi \<ge> int (hd seg)) (occupied_segments occupied) of
        None \<Rightarrow> []
      | Some seg \<Rightarrow>
          (let main_word_positions = [hd seg..<last seg + 1]
           in if length main_word_positions > 1 then [main_word_positions] else []))"

text \<open>
  For a cross word: \<open>indices = np.where(seg)[0]\<close>, split where consecutive indices are not
  adjacent, and \<open>next((seg for seg in segment_boundaries if k in seg), None)\<close>. The test
  \<open>k in seg\<close> compares the raw coordinate \<open>k\<close> with the (non-negative) indices.
\<close>

definition cross_segment :: "bool list \<Rightarrow> int \<Rightarrow> nat list list" where
  "cross_segment seg k =
     (if \<not> seg ! np_norm k then []
      else let indices = filter (\<lambda>i. seg ! i) [0..<15];
               cuts = map Suc (filter (\<lambda>j. indices ! j + 1 \<noteq> indices ! Suc j)
                        [0..<length indices - 1]);
               segment_boundaries = np_split indices cuts
           in case find (\<lambda>s. k \<in> set (map int s)) segment_boundaries of
                None \<Rightarrow> []
              | Some segment \<Rightarrow>
                  if length segment > 1 then [[hd segment..<last segment + 1]] else [])"

definition extract_word_positions :: "board \<Rightarrow> addition list \<Rightarrow> pos list list" where
  "extract_word_positions temp_board additions =
     (if additions = [] then []
      else let positions = map snd additions;
               unique_rows = np_unique (map fst positions);
               unique_cols = np_unique (map snd positions)
           in if length unique_rows = 1 then
                (let row = hd unique_rows;
                     occupied = map (\<lambda>c. temp_board (np_norm row, c) \<noteq> None) [0..<15];
                     min_col = Min (set (map snd positions));
                     max_col = Max (set (map snd positions))
                 in map (map (\<lambda>c. (row, int c))) (main_segment occupied min_col max_col) @
                    concat (map (\<lambda>p.
                      map (map (\<lambda>r. (int r, snd p)))
                        (cross_segment (map (\<lambda>r. temp_board (r, np_norm (snd p)) \<noteq> None) [0..<15]) row))
                      positions))
              else
                (let col = hd unique_cols;
                     occupied = map (\<lambda>r. temp_board (r, np_norm col) \<noteq> None) [0..<15];
                     min_row = Min (set (map fst positions));
                     max_row = Max (set (map fst positions))
                 in map (map (\<lambda>r. (int r, col))) (main_segment occupied min_row max_row) @
                    concat (map (\<lambda>p.
                      map (map (\<lambda>c. (fst p, int c)))
                        (cross_segment (map (\<lambda>c. temp_board (np_norm (fst p), c) \<noteq> None) [0..<15]) col))
                      positions)))"

section \<open>Affected words and dictionary validation\<close>

text \<open>
  Writing the additions on a copy of the board. An index outside \<open>[-15, 15)\<close> raises
  \<open>IndexError\<close>.
\<close>

definition place_all :: "board \<Rightarrow> addition list \<Rightarrow> board" where
  "place_all b additions = fold (\<lambda>(letter, p) tb. bset tb p letter) additions b"

definition cell_str :: "cell \<Rightarrow> string" where
  "cell_str x = (case x of None \<Rightarrow> [] | Some ch \<Rightarrow> [ch])"

text \<open>
  \<open>Game._get_all_affected_words\<close> returns a Python set of strings; the model lists its
  elements once each (the iteration order of a Python set is not specified).
\<close>

definition get_all_affected_words :: "game \<Rightarrow> addition list \<Rightarrow> error + string list" where
  "get_all_affected_words g additions =
     (if additions = [] then Inr []
      else if \<exists>a \<in> set additions. \<not> pos_valid (snd a) then Inl IndexError
      else let temp_board = place_all (board g) additions;
               word_positions = extract_word_positions temp_board additions
           in Inr (remdups (map (\<lambda>pos_list. concat (map (\<lambda>p. cell_str (bget temp_board p)) pos_list))
                      word_positions)))"

text \<open>\<open>itertools.product(choices, repeat=k)\<close>: the leftmost coordinate varies slowest.\<close>

fun product_repeat :: "'a list \<Rightarrow> nat \<Rightarrow> 'a list list" where
  "product_repeat xs 0 = [[]]"
| "product_repeat xs (Suc k) = concat (map (\<lambda>x. map ((#) x) (product_repeat xs k)) xs)"

definition wildcard_indices_of :: "addition list \<Rightarrow> nat list" where
  "wildcard_indices_of additions =
     filter (\<lambda>i. fst (additions ! i) = CHR ''-'') [0..<length additions]"

text \<open>
  \<open>for i, wc_idx in enumerate(wildcard_indices): additions[wc_idx] = (f(combo[i]), additions[wc_idx][1])\<close>
\<close>

definition assign_wildcards :: "(char \<Rightarrow> char) \<Rightarrow> nat list \<Rightarrow> char list \<Rightarrow> addition list \<Rightarrow> addition list" where
  "assign_wildcards f wildcard_indices letter_combo additions =
     fold (\<lambda>(wc_idx, letter) adds. adds[wc_idx := (f letter, snd (adds ! wc_idx))])
       (zip wildcard_indices letter_combo) additions"

definition all_words_valid :: "game \<Rightarrow> addition list \<Rightarrow> bool" where
  "all_words_valid g additions =
     (case get_all_affected_words g additions of
        Inl _ \<Rightarrow> False
      | Inr all_words \<Rightarrow>
          list_all (\<lambda>word. lower_s word \<in> set (scrabble_dictionary (rule g))) all_words)"

definition valid_combinations :: "game \<Rightarrow> addition list \<Rightarrow> char list list" where
  "valid_combinations g additions =
     (let wildcard_indices = wildcard_indices_of additions
      in filter (\<lambda>letter_combo.
                   all_words_valid g (assign_wildcards id wildcard_indices letter_combo additions))
           (product_repeat ascii_uppercase (length wildcard_indices)))"

text \<open>
  \<open>Game._check_word_valid\<close> mutates \<open>additions\<close> in place and returns \<open>True\<close>; the model
  returns the list as it is left. \<open>random.choice\<close> is the element at a drawn index; the draw
  \<open>rnd\<close> is a parameter.
\<close>

definition check_word_valid :: "game \<Rightarrow> nat \<Rightarrow> addition list \<Rightarrow> error + addition list" where
  "check_word_valid g rnd additions =
     (case find (\<lambda>(_, p). \<not> pos_valid p \<or> bget (board g) p \<noteq> None) additions of
        Some (_, (row, col)) \<Rightarrow>
          (if \<not> pos_valid (row, col) then Inl IndexError
           else case bget (board g) (row, col) of
                  Some ch \<Rightarrow> Inl (OccupiedBy row col ch)
                | None \<Rightarrow> Inl IndexError)
      | None \<Rightarrow>
          (let wildcard_indices = wildcard_indices_of additions
           in if wildcard_indices = [] then
                (case get_all_affected_words g additions of
                   Inl e \<Rightarrow> Inl e
                 | Inr all_words \<Rightarrow>
                     (let invalid_words =
                            filter (\<lambda>word. lower_s word \<notin> set (scrabble_dictionary (rule g))) all_words
                      in if length invalid_words > 0 then Inl (InvalidWords invalid_words)
                         else Inr additions))
              else
                (let valid = valid_combinations g additions
                 in if valid = [] then
                      Inl (NoValidCombination (map (\<lambda>i. snd (additions ! i)) wildcard_indices))
                    else let chosen_combo = valid ! (rnd mod length valid)
                         in Inr (assign_wildcards lower_c wildcard_indices chosen_combo additions))))"

section \<open>Scoring: \<open>Game.score_calculator\<close>\<close>

definition is_blank_tile :: "char \<Rightarrow> bool" where
  "is_blank_tile ch = (isalpha_c ch \<and> islower_c ch)"

text \<open>One iteration of the loop of \<open>score_word\<close> on the accumulators \<open>(letter_sum, word_mult)\<close>.\<close>

definition score_step ::
  "rule \<Rightarrow> board \<Rightarrow> pos list \<Rightarrow> pos list \<Rightarrow> pos \<Rightarrow> int \<times> int \<Rightarrow> int \<times> int" where
  "score_step r temp_board blank_positions new_positions p acc =
     (let base = (if p \<in> set blank_positions then 0
                  else case bget temp_board p of
                         None \<Rightarrow> 0
                       | Some ch \<Rightarrow> (case letter_points r (upper_c ch) of None \<Rightarrow> 0 | Some v \<Rightarrow> v));
          cell = (np_norm (fst p), np_norm (snd p))
      in if p \<in> set new_positions
         then (fst acc + base * letter_multiplier r cell, snd acc * max 1 (word_multiplier r cell))
         else (fst acc + base, snd acc))"

definition score_word :: "rule \<Rightarrow> board \<Rightarrow> pos list \<Rightarrow> pos list \<Rightarrow> pos list \<Rightarrow> int" where
  "score_word r temp_board blank_positions new_positions pos_list =
     (let acc = fold (score_step r temp_board blank_positions new_positions) pos_list (0, 1)
      in fst acc * snd acc)"

text \<open>
  \<open>total = sum(score_word(w) for w in word_positions)\<close>, before the bonus, with the locals
  that \<open>score_calculator\<close> builds for it.
\<close>

definition words_total :: "game \<Rightarrow> addition list \<Rightarrow> int" where
  "words_total g additions =
     (let blank_positions = map snd (filter (\<lambda>(ch, _). is_blank_tile ch) additions);
          norm_additions = map (\<lambda>(ch, pos). (upper_c ch, pos)) additions;
          temp_board = place_all (board g) norm_additions;
          new_positions = map snd norm_additions;
          word_positions = extract_word_positions temp_board norm_additions
      in sum_list (map (score_word (rule g) temp_board blank_positions new_positions)
                       word_positions))"

definition score_calculator :: "game \<Rightarrow> addition list \<Rightarrow> bool \<Rightarrow> error + int" where
  "score_calculator g additions bingo =
     (if additions = [] then Inr 0
      else if \<exists>a \<in> set additions. \<not> pos_valid (snd a) then Inl IndexError
      else let total = words_total g additions
           in Inr (if bingo \<or> length additions = 7 then total + 50 else total))"

section \<open>Commit and \<open>Game.new_move\<close>\<close>

text \<open>
  \<open>Game._update\<close> writes the upper-cased letters one by one; a write at an invalid index
  raises \<open>IndexError\<close> and leaves the earlier writes in place.
\<close>

fun update_loop :: "board \<Rightarrow> addition list \<Rightarrow> error option \<times> board" where
  "update_loop b [] = (None, b)"
| "update_loop b ((letter, p) # rest) =
     (if pos_valid p then update_loop (bset b p letter) rest else (Some IndexError, b))"

definition update :: "game \<Rightarrow> addition list \<Rightarrow> error option \<times> game" where
  "update g additions =
     (case update_loop (board g) (map (\<lambda>(letter, pos). (upper_c letter, pos)) additions) of
        (e, b) \<Rightarrow> (e, g\<lparr>board := b\<rparr>))"

text \<open>
  The result of \<open>new_move\<close> with the game as it is left. The branch \<open>return False\<close> is the
  value 0 (\<open>False == 0\<close> in Python).
\<close>

definition new_move :: "game \<Rightarrow> nat \<Rightarrow> addition list \<Rightarrow> (error + int) \<times> game" where
  "new_move g rnd additions0 =
     (let additions = map (\<lambda>(letter, pos). (upper_c letter, pos)) additions0
      in case verify_word_addition g additions of
           Inl e \<Rightarrow> (Inl e, g)
         | Inr ok \<Rightarrow>
             if \<not> ok then (Inr 0, g)
             else case check_board_valid g additions of
                    Inl e \<Rightarrow> (Inl e, g)
                  | Inr _ \<Rightarrow>
                      (case check_word_valid g rnd additions of
                         Inl e \<Rightarrow> (Inl e, g)
                       | Inr resolved \<Rightarrow>
                           (case score_calculator g resolved False of
                              Inl e \<Rightarrow> (Inl e, g)
                            | Inr score \<Rightarrow>
                                (case update g resolved of
                                   (Some e, g') \<Rightarrow> (Inl e, g')
                                 | (None, g') \<Rightarrow> (Inr score, g')))))"

section \<open>The standard rule object: \<open>resources/rule_definitions.py\<close>\<close>

text \<open>
  The letter values and the premium squares that \<open>Rule.__init__\<close> sets; the dictionary is
  read from a file and is a parameter here. \<open>Game(rule)\<close> starts with the empty board.
\<close>

definition standard_letter_points :: "char \<rightharpoonup> int" where
  "standard_letter_points = map_of
     [(CHR ''-'', 0), (CHR ''A'', 1), (CHR ''E'', 1), (CHR ''I'', 1), (CHR ''O'', 1), (CHR ''U'', 1),
      (CHR ''L'', 1), (CHR ''N'', 1), (CHR ''S'', 1), (CHR ''T'', 1), (CHR ''R'', 1),
      (CHR ''D'', 2), (CHR ''G'', 2),
      (CHR ''B'', 3), (CHR ''C'', 3), (CHR ''M'', 3), (CHR ''P'', 3),
      (CHR ''F'', 4), (CHR ''H'', 4), (CHR ''V'', 4), (CHR ''W'', 4), (CHR ''Y'', 4),
      (CHR ''K'', 5), (CHR ''J'', 8), (CHR ''X'', 8), (CHR ''Q'', 10), (CHR ''Z'', 10)]"

definition tw_positions :: "(nat \<times> nat) list" where
  "tw_positions = [(0, 0), (0, 7), (0, 14), (7, 0), (7, 14), (14, 0), (14, 7), (14, 14)]"

definition dw_positions :: "(nat \<times> nat) list" where
  "dw_positions = [(1, 1), (1, 13), (2, 2), (2, 12), (3, 3), (3, 11), (4, 4), (4, 10), (7, 7),
     (10, 4), (10, 10), (11, 3), (11, 11), (12, 2), (12, 12), (13, 1), (13, 13)]"

definition tl_positions :: "(nat \<times> nat) list" where
  "tl_positions = [(1, 5), (1, 9), (5, 1), (5, 5), (5, 9), (5, 13),
     (9, 1), (9, 5), (9, 9), (9, 13), (13, 5), (13, 9)]"

definition dl_positions :: "(nat \<times> nat) list" where
  "dl_positions = [(0, 3), (0, 11), (2, 6), (2, 8), (3, 0), (3, 7), (3, 14),
     (6, 2), (6, 6), (6, 8), (6, 12), (7, 3), (7, 11), (8, 2), (8, 6), (8, 8), (8, 12),
     (11, 0), (11, 7), (11, 14), (12, 6), (12, 8), (14, 3), (14, 11)]"

definition standard_word_multiplier :: "nat \<times> nat \<Rightarrow> int" where
  "standard_word_multiplier p =
     (if p \<in> set dw_positions then 2 else if p \<in> set tw_positions then 3 else 1)"

definition standard_letter_multiplier :: "nat \<times> nat \<Rightarrow> int" where
  "standard_letter_multiplier p =
     (if p \<in> set dl_positions then 2 else if p \<in> set tl_positions then 3 else 1)"

definition Rule :: "string list \<Rightarrow> rule" where
  "Rule dict = \<lparr> scrabble_dictionary = dict, letter_points = standard_letter_points,
      word_multiplier = standard_word_multiplier, letter_multiplier = standard_letter_multiplier \<rparr>"

definition Game :: "rule \<Rightarrow> game" where
  "Game r = \<lparr> rule = r, board = empty_grid \<rparr>"


section \<open>The pattern matcher: \<open>SimplePatternGenerator\<close>\<close>

text \<open>
  The \<open>ValueError\<close>s of the two pattern generators. The insufficient-deck error carries the
  missing-letter count and the number of blanks of its message.
\<close>

datatype pattern_error =
    EmptyPattern
  | BadPatternChar
  | BadDeckChar
  | InsufficientDeck nat nat
  | InvalidRangeFormat
  | InvalidRange nat nat
  | InvalidCharacter char

text \<open>
  A \<open>Counter\<close> built from a sequence: its keys in insertion order (first occurrences), its
  counts by \<^const>\<open>count_list\<close> (0 for an absent key, as \<open>.get(letter, 0)\<close>).
\<close>

fun counter_keys :: "'a list \<Rightarrow> 'a list" where
  "counter_keys [] = []"
| "counter_keys (x # xs) = x # removeAll x (counter_keys xs)"

text \<open>
  The loop \<open>for letter, count in letter_counts.items(): ... missing += count - have\<close>.
\<close>

definition missing_letters :: "string \<Rightarrow> string \<Rightarrow> nat" where
  "missing_letters pattern_letters deck_letters =
     fold (\<lambda>letter missing.
             (let count = count_list pattern_letters letter;
                  have = count_list deck_letters letter
              in if have < count then missing + (count - have) else missing))
       (counter_keys pattern_letters) 0"

text \<open>The deck checks shared by both generators; \<open>None\<close> when nothing is raised.\<close>

definition check_deck :: "string \<Rightarrow> string \<Rightarrow> pattern_error option" where
  "check_deck pattern_letters deck =
     (if \<exists>char \<in> set deck. \<not> (isalpha_c char \<or> char = CHR ''-'') then Some BadDeckChar
      else let deck_letters = filter isalpha_c deck;
               num_blanks = count_list deck (CHR ''-'');
               missing = missing_letters pattern_letters deck_letters
           in if missing > num_blanks then Some (InsufficientDeck missing num_blanks) else None)"

definition spg_verify_pattern :: "string \<Rightarrow> string \<Rightarrow> pattern_error option" where
  "spg_verify_pattern pattern0 deck0 =
     (if pattern0 = [] then Some EmptyPattern
      else let pattern = upper_s pattern0; deck = upper_s deck0
           in if \<exists>char \<in> set pattern. \<not> (isalpha_c char \<or> char = CHR ''_'') then Some BadPatternChar
              else check_deck (filter isalpha_c pattern) deck)"

definition calculate_implicit_deck :: "string \<Rightarrow> string \<Rightarrow> string" where
  "calculate_implicit_deck pattern deck =
     fold (\<lambda>char deck_list.
             if isalpha_c char then
               (if char \<in> set deck_list then remove1 char deck_list
                else if CHR ''-'' \<in> set deck_list then remove1 (CHR ''-'') deck_list
                else deck_list)
             else deck_list)
       (upper_s pattern) (upper_s deck)"

text \<open>
  The second loop of \<open>__can_make_word\<close>, over the keys of \<open>needed\<close>, with the blanks left.
\<close>

fun supply_loop :: "(char \<Rightarrow> nat) \<Rightarrow> (char \<Rightarrow> nat) \<Rightarrow> char list \<Rightarrow> nat \<Rightarrow> bool" where
  "supply_loop needed deck_counter [] blanks = True"
| "supply_loop needed deck_counter (letter # rest) blanks =
     (let count = needed letter; have = deck_counter letter
      in if have < count then
           (if have + blanks < count then False
            else supply_loop needed deck_counter rest (blanks - (count - have)))
         else supply_loop needed deck_counter rest blanks)"

definition can_make_word ::
  "string \<Rightarrow> nat list \<Rightarrow> char list \<Rightarrow> nat list \<Rightarrow> (char \<Rightarrow> nat) \<Rightarrow> bool" where
  "can_make_word word fixed_indices fixed_letters wildcard_indices implicit_deck_counter =
     (if list_ex (\<lambda>(idx, letter). word ! idx \<noteq> letter) (zip fixed_indices fixed_letters)
      then False
      else let needed_chars = map (\<lambda>idx. word ! idx) wildcard_indices
           in supply_loop (count_list needed_chars) implicit_deck_counter
                (counter_keys needed_chars) (implicit_deck_counter (CHR ''-'')))"

definition generate :: "string \<Rightarrow> string \<Rightarrow> string list \<Rightarrow> pattern_error + string list" where
  "generate pattern0 deck0 word_list =
     (case spg_verify_pattern pattern0 deck0 of
        Some e \<Rightarrow> Inl e
      | None \<Rightarrow>
          (let pattern = upper_s pattern0;
               implicit_deck = calculate_implicit_deck pattern0 deck0;
               implicit_deck_counter = count_list implicit_deck;
               pattern_length = length pattern;
               fixed_indices = filter (\<lambda>i. isalpha_c (pattern ! i)) [0..<length pattern];
               fixed_letters = map (\<lambda>i. pattern ! i) fixed_indices;
               wildcard_indices = filter (\<lambda>i. pattern ! i = CHR ''_'') [0..<length pattern];
               candidates = map upper_s (filter (\<lambda>word. length word = pattern_length) word_list)
           in Inr (filter (\<lambda>word. can_make_word word fixed_indices fixed_letters wildcard_indices
                                      implicit_deck_counter)
                     candidates)))"

section \<open>The pattern expander: \<open>DynamicPatternGenerator\<close>\<close>

text \<open>
  The regular expression \<open>\((\d+),(\d+)\)\<close> matched at the head of a string: the two numbers
  and the rest after the closing parenthesis.
\<close>

definition isdigit_c :: "char \<Rightarrow> bool" where
  "isdigit_c c = (48 \<le> (of_char c :: nat) \<and> (of_char c :: nat) \<le> 57)"

definition int_of_digits :: "string \<Rightarrow> nat" where
  "int_of_digits ds = fold (\<lambda>d n. 10 * n + ((of_char d :: nat) - 48)) ds 0"

definition match_range :: "string \<Rightarrow> (nat \<times> nat \<times> string) option" where
  "match_range s =
     (case s of
        [] \<Rightarrow> None
      | c # r1 \<Rightarrow>
          if c \<noteq> CHR ''('' then None
          else let d1 = takeWhile isdigit_c r1; r2 = dropWhile isdigit_c r1
               in if d1 = [] then None
                  else (case r2 of
                          [] \<Rightarrow> None
                        | c2 # r3 \<Rightarrow>
                            if c2 \<noteq> CHR '','' then None
                            else let d2 = takeWhile isdigit_c r3; r4 = dropWhile isdigit_c r3
                                 in if d2 = [] then None
                                    else (case r4 of
                                            [] \<Rightarrow> None
                                          | c3 # r5 \<Rightarrow>
                                              if c3 \<noteq> CHR '')'' then None
                                              else Some (int_of_digits d1, int_of_digits d2, r5))))"

lemma match_range_shorter:
  "match_range s = Some (n, m, rest) \<Longrightarrow> length rest < length s"
proof -
  have dw: "\<And>P (xs :: string) y ys. dropWhile P xs = y # ys \<Longrightarrow> length ys < length xs"
  proof -
    fix P and xs :: string and y ys
    assume "dropWhile P xs = y # ys"
    then have "length (y # ys) \<le> length xs" by (metis length_dropWhile_le)
    then show "length ys < length xs" by simp
  qed
  assume "match_range s = Some (n, m, rest)"
  then obtain c r1 c2 r3 c3 where s: "s = c # r1"
    and 1: "dropWhile isdigit_c r1 = c2 # r3"
    and 2: "dropWhile isdigit_c r3 = c3 # rest"
    by (auto simp: match_range_def Let_def split: list.splits if_splits)
  from dw [OF 1] dw [OF 2] show ?thesis by (simp add: s)
qed

text \<open>
  The single pass of \<open>__verify_pattern\<close> over the upper-cased pattern: it skips the ranges,
  collects the letters and raises on anything else.
\<close>

function verify_scan :: "string \<Rightarrow> string \<Rightarrow> pattern_error + string" where
  "verify_scan [] letters = Inr letters"
| "verify_scan (c # cs) letters =
     (if c = CHR ''('' then
        (case match_range (c # cs) of
           None \<Rightarrow> Inl InvalidRangeFormat
         | Some (n, m, rest) \<Rightarrow>
             if n \<ge> m then Inl (InvalidRange n m) else verify_scan rest letters)
      else if isalpha_c c then verify_scan cs (letters @ [upper_c c])
      else if c \<noteq> CHR ''_'' then Inl (InvalidCharacter c)
      else verify_scan cs letters)"
  by pat_completeness auto
termination
  by (relation "measure (\<lambda>(s, _). length s)") (auto dest: match_range_shorter)

definition dpg_verify_pattern :: "string \<Rightarrow> string \<Rightarrow> pattern_error option" where
  "dpg_verify_pattern pattern0 deck0 =
     (case verify_scan (upper_s pattern0) [] of
        Inl e \<Rightarrow> Some e
      | Inr pattern_letters \<Rightarrow> check_deck pattern_letters (upper_s deck0))"

text \<open>\<open>__list_all_patterns\<close>: the tokens, then the recursive expansion.\<close>

datatype token = Range nat nat | Chr char

function tokenize :: "string \<Rightarrow> token list" where
  "tokenize [] = []"
| "tokenize (c # cs) =
     (case match_range (c # cs) of
        Some (n, m, rest) \<Rightarrow> Range n m # tokenize rest
      | None \<Rightarrow> Chr c # tokenize cs)"
  by pat_completeness auto
termination
  by (relation "measure length") (auto dest: match_range_shorter)

fun expand :: "token list \<Rightarrow> string list" where
  "expand [] = [[]]"
| "expand (Range n m # rest) =
     concat (map (\<lambda>k. map (\<lambda>tail. replicate k (CHR ''_'') @ tail) (expand rest)) [n..<m + 1])"
| "expand (Chr c # rest) = map (\<lambda>tail. c # tail) (expand rest)"

definition list_all_patterns :: "string \<Rightarrow> string list" where
  "list_all_patterns pattern = expand (tokenize pattern)"

text \<open>
  The loop of \<open>generate\<close>: an error of the matcher on one pattern ends it. \<open>valid_words\<close> is a
  Python set; the model keeps its elements once each, in the order of their first arrival
  (Python does not specify the order of \<open>list(valid_words)\<close>).
\<close>

fun collect_matches ::
  "string list \<Rightarrow> string \<Rightarrow> string list \<Rightarrow> string list \<Rightarrow> pattern_error + string list" where
  "collect_matches [] deck word_list valid_words = Inr valid_words"
| "collect_matches (pat # pats) deck word_list valid_words =
     (case generate pat deck word_list of
        Inl e \<Rightarrow> Inl e
      | Inr matches \<Rightarrow> collect_matches pats deck word_list (remdups (valid_words @ matches)))"

definition dpg_generate :: "string \<Rightarrow> string \<Rightarrow> string list \<Rightarrow> pattern_error + string list" where
  "dpg_generate pattern deck word_list =
     (case dpg_verify_pattern pattern deck of
        Some e \<Rightarrow> Inl e
      | None \<Rightarrow> collect_matches (list_all_patterns pattern) deck word_list [])"
section \<open>The strategies and the aggregator\<close>

text \<open>
  The candidate search of the three strategies (anchors, pattern builder, materialiser) ends in
  a list of candidate placements; what follows embeds the code after that search, which picks
  the best candidates and builds the returned list, with the collected candidates as its input.
\<close>

text \<open>The Python exception of an attribute looked up on an object that does not have it.\<close>

datatype py_error = AttributeError string

text \<open>
  The attributes of an \<open>OptimiserLength\<close> instance: the four that \<open>__init__\<close> sets and the
  methods of the class, in the order of \<open>longest_word.py\<close>.
\<close>

definition OptimiserLength_attributes :: "string list" where
  "OptimiserLength_attributes =
     [''rule'', ''spg'', ''dpg'', ''game'',
      ''__init__'', ''_find_start_word'', ''recommend_next_move'', ''_find_anchor_positions'',
      ''_scan_side_for_blocks'', ''_build_pattern_from_selection'', ''_simplify_pattern'',
      ''_build_all_dynamic_patterns'', ''_calculate_anchor_index_in_word'',
      ''_materialize_additions_from_words'']"

text \<open>
  \<open>self.ol.name\<close>: the lookup decides whether the instance has the attribute; what a method
  found there would compute is the parameter \<open>impl\<close>.
\<close>

definition ol_getattr :: "string \<Rightarrow> 'm \<Rightarrow> py_error + 'm" where
  "ol_getattr name impl =
     (if name \<in> set OptimiserLength_attributes then Inr impl else Inl (AttributeError name))"

text \<open>
  An element of a strategy's returned list: a placement with its score, or a placement alone.
\<close>

datatype recommendation = WithScore "addition list" int | Placement "addition list"

type_synonym candidate = "int \<times> addition list"

text \<open>
  \<open>OptimiserPrize.recommend_next_move\<close> from \<open>if not candidates\<close> on (lines 109 to 119 of
  \<open>prized_cells.py\<close>); \<open>candidates\<close> holds the pairs \<open>(score, adds)\<close> in the order of their
  collection.
\<close>

definition prize_best ::
  "(addition list list \<Rightarrow> addition list list) \<Rightarrow> candidate list \<Rightarrow> py_error + recommendation list"
  where
  "prize_best dedup candidates =
     (if candidates = [] then Inr []
      else let max_score = Max (set (map fst candidates));
               best = map (\<lambda>(score, adds). (adds, score))
                        (filter (\<lambda>(score, adds). score = max_score) candidates);
               best_adds = map fst best
           in case ol_getattr ''_dedup_additions_sets'' dedup of
                Inl e \<Rightarrow> Inl e
              | Inr dedup_additions_sets \<Rightarrow>
                  Inr (map (\<lambda>adds. WithScore adds max_score) (dedup_additions_sets best_adds)))"

text \<open>
  \<open>OptimiserCrossword.recommend_next_move\<close> from \<open>if not candidates\<close> on (lines 121 to 131 of
  \<open>crossword.py\<close>).
\<close>

definition crossword_best ::
  "(addition list list \<Rightarrow> addition list list) \<Rightarrow> candidate list \<Rightarrow> py_error + recommendation list"
  where
  "crossword_best dedup candidates =
     (if candidates = [] then Inr []
      else let max_score = Max (set (map fst candidates));
               best = map (\<lambda>(s, adds). (adds, s))
                        (filter (\<lambda>(s, adds). s = max_score) candidates);
               best_adds = map fst best
           in case ol_getattr ''_dedup_additions_sets'' dedup of
                Inl e \<Rightarrow> Inl e
              | Inr dedup_additions_sets \<Rightarrow>
                  Inr (map (\<lambda>adds. WithScore adds max_score) (dedup_additions_sets best_adds)))"

text \<open>
  \<open>OptimiserLength.recommend_next_move\<close> on a non-empty board, from \<open>if not candidates\<close> on
  (lines 158 to 182 of \<open>longest_word.py\<close>): a candidate whose scoring raises is skipped, and the
  placements of the highest score are returned without their score.
\<close>

definition longest_best :: "game \<Rightarrow> addition list list \<Rightarrow> recommendation list" where
  "longest_best g candidates =
     (if candidates = [] then []
      else let scored = List.map_filter
                          (\<lambda>adds. case score_calculator g adds False of
                                     Inl _ \<Rightarrow> None
                                   | Inr score \<Rightarrow> Some (score, adds))
                          candidates
           in if scored = [] then []
              else let max_score = Max (set (map fst scored))
                   in map (\<lambda>(score, adds). Placement adds)
                        (filter (\<lambda>(score, adds). score = max_score) scored))"

text \<open>
  \<open>AggregateRecommender.recommend_next_move\<close>. The three parameters are what the
  \<open>recommend_next_move\<close> of the three strategies gives on the rack: a list, or the exception
  it raises, which the aggregator does not catch. On an empty board only the Prize-Seeking
  strategy is called. The returned dictionary is the list of its items in insertion order.
\<close>

definition aggregate_recommend ::
  "game \<Rightarrow> (py_error + recommendation list) \<Rightarrow> (py_error + recommendation list) \<Rightarrow>
   (py_error + recommendation list) \<Rightarrow> py_error + (string \<times> recommendation list) list" where
  "aggregate_recommend g longest_result prize_result cross_result =
     (let board_empty = \<not> list_ex (\<lambda>p. board g p \<noteq> None) (List.product [0..<15] [0..<15])
      in if board_empty then
           (case prize_result of
              Inl e \<Rightarrow> Inl e
            | Inr prize_moves \<Rightarrow> Inr [(''PrizeCells'', prize_moves)])
         else
           (case longest_result of
              Inl e \<Rightarrow> Inl e
            | Inr longest_moves \<Rightarrow>
                (case prize_result of
                   Inl e \<Rightarrow> Inl e
                 | Inr prize_moves \<Rightarrow>
                     (case cross_result of
                        Inl e \<Rightarrow> Inl e
                      | Inr cross_moves \<Rightarrow>
                          Inr [(''LongestWord'', longest_moves), (''PrizeCells'', prize_moves),
                               (''Crossword'', cross_moves)]))))"


section \<open>Notions of the specification\<close>

subsection \<open>Geometry of a placement\<close>

text \<open>
  The placement spans more than one row (column); the length of its coordinate span
  (maximum minus minimum plus one) along the shared axis.
\<close>

definition several_rows :: "addition list \<Rightarrow> bool" where
  "several_rows adds = (\<exists>a \<in> set adds. \<exists>b \<in> set adds. fst (snd a) \<noteq> fst (snd b))"

definition several_cols :: "addition list \<Rightarrow> bool" where
  "several_cols adds = (\<exists>a \<in> set adds. \<exists>b \<in> set adds. snd (snd a) \<noteq> snd (snd b))"

definition span_length :: "int list \<Rightarrow> int" where
  "span_length xs = Max (set xs) - Min (set xs) + 1"

definition shared_axis_span :: "addition list \<Rightarrow> int" where
  "shared_axis_span adds =
     (if several_rows adds then span_length (map (\<lambda>a. fst (snd a)) adds)
      else span_length (map (\<lambda>a. snd (snd a)) adds))"

subsection \<open>The board rule\<close>

text \<open>
  A board with zero occupied cells; orthogonal (4-neighbour) adjacency; a new tile next to an
  occupied cell of the board.
\<close>

definition board_is_empty :: "board \<Rightarrow> bool" where
  "board_is_empty b = (\<forall>r < 15. \<forall>c < 15. b (r, c) = None)"

definition orth_adjacent :: "pos \<Rightarrow> pos \<Rightarrow> bool" where
  "orth_adjacent p q = (\<bar>fst p - fst q\<bar> + \<bar>snd p - snd q\<bar> = 1)"

definition touches_occupied :: "game \<Rightarrow> addition list \<Rightarrow> bool" where
  "touches_occupied g adds =
     (\<exists>a \<in> set adds. \<exists>q. orth_adjacent (snd a) q \<and> in_bounds q \<and> bget (board g) q \<noteq> None)"

subsection \<open>Placements and the score of a move\<close>

text \<open>
  A placement lies on the board when all its positions are within the 15x15 bounds. A cell is
  newly placed when the placement has a tile there, and holds a resolved blank when that tile
  is a lower-case letter. The overlay is the board with the placement written on it
  (upper-cased, as the board stores letters); the formed words are the position lists
  extracted from the overlay.
\<close>

definition on_board :: "addition list \<Rightarrow> bool" where
  "on_board adds = (\<forall>a \<in> set adds. in_bounds (snd a))"

definition newly_placed :: "addition list \<Rightarrow> pos \<Rightarrow> bool" where
  "newly_placed adds p = (\<exists>a \<in> set adds. snd a = p)"

definition resolved_blank_at :: "addition list \<Rightarrow> pos \<Rightarrow> bool" where
  "resolved_blank_at adds p = (\<exists>a \<in> set adds. snd a = p \<and> islower_c (fst a))"

definition overlay :: "board \<Rightarrow> addition list \<Rightarrow> board" where
  "overlay b adds = place_all b (map (\<lambda>(ch, p). (upper_c ch, p)) adds)"

definition formed_words :: "board \<Rightarrow> addition list \<Rightarrow> pos list list" where
  "formed_words b adds =
     extract_word_positions (overlay b adds) (map (\<lambda>(ch, p). (upper_c ch, p)) adds)"

text \<open>
  The base value of a cell is 0 for a resolved blank and the point value of its letter
  otherwise. For each word: the letter sum takes the letter multiplier on the new cells only,
  the word multiplier is the product over the new cells of the cell's word multiplier, floored
  at 1, and the word score is their product. The move total is the sum over the formed words;
  the bonus is 50 for seven new tiles or a forced flag.
\<close>

definition point_value :: "rule \<Rightarrow> cell \<Rightarrow> int" where
  "point_value r x =
     (case x of None \<Rightarrow> 0
      | Some ch \<Rightarrow> (case letter_points r (upper_c ch) of None \<Rightarrow> 0 | Some v \<Rightarrow> v))"

definition base_value :: "game \<Rightarrow> addition list \<Rightarrow> pos \<Rightarrow> int" where
  "base_value g adds p =
     (if resolved_blank_at adds p then 0
      else point_value (rule g) (bget (overlay (board g) adds) p))"

definition grid_cell :: "pos \<Rightarrow> nat \<times> nat" where
  "grid_cell p = (np_norm (fst p), np_norm (snd p))"

definition letter_sum :: "game \<Rightarrow> addition list \<Rightarrow> pos list \<Rightarrow> int" where
  "letter_sum g adds w =
     (\<Sum>p \<leftarrow> w. if newly_placed adds p
                 then base_value g adds p * letter_multiplier (rule g) (grid_cell p)
                 else base_value g adds p)"

definition word_mult :: "game \<Rightarrow> addition list \<Rightarrow> pos list \<Rightarrow> int" where
  "word_mult g adds w =
     (\<Prod>p \<leftarrow> filter (newly_placed adds) w. max 1 (word_multiplier (rule g) (grid_cell p)))"

definition word_score :: "game \<Rightarrow> addition list \<Rightarrow> pos list \<Rightarrow> int" where
  "word_score g adds w = letter_sum g adds w * word_mult g adds w"

definition move_score :: "game \<Rightarrow> addition list \<Rightarrow> int" where
  "move_score g adds = (\<Sum>w \<leftarrow> formed_words (board g) adds. word_score g adds w)"

definition bonus :: "addition list \<Rightarrow> bool \<Rightarrow> int" where
  "bonus adds forced = (if length adds = 7 \<or> forced then 50 else 0)"

subsection \<open>Wildcards and their resolution\<close>

text \<open>
  A placement keeps to free cells when none of its positions is occupied. A wildcard tile
  carries the marker \<open>'-'\<close>. \<open>fill_wildcards ls adds\<close> is the placement with its wildcard
  tiles, in order, given the letters \<open>ls\<close>.
\<close>

definition free_cells :: "game \<Rightarrow> addition list \<Rightarrow> bool" where
  "free_cells g adds = (\<forall>a \<in> set adds. bget (board g) (snd a) = None)"

definition is_wildcard :: "addition \<Rightarrow> bool" where
  "is_wildcard a = (fst a = CHR ''-'')"

definition wildcard_positions :: "addition list \<Rightarrow> pos list" where
  "wildcard_positions adds = map snd (filter is_wildcard adds)"

fun fill_wildcards :: "char list \<Rightarrow> addition list \<Rightarrow> addition list" where
  "fill_wildcards ls [] = []"
| "fill_wildcards ls (a # rest) =
     (if is_wildcard a
      then (case ls of
              [] \<Rightarrow> a # fill_wildcards [] rest
            | l # ls' \<Rightarrow> (l, snd a) # fill_wildcards ls' rest)
      else a # fill_wildcards ls rest)"

text \<open>The additions of \<open>new_move\<close> and of the commit, upper-cased.\<close>

abbreviation uppercased :: "addition list \<Rightarrow> addition list" where
  "uppercased adds \<equiv> map (\<lambda>(letter, pos). (upper_c letter, pos)) adds"

subsection \<open>Auxiliary notions of the proofs\<close>

text \<open>
  One iteration of the in-place assignment loop; placements and boards that agree up to the
  case of their letters.
\<close>

definition assign_step :: "(char \<Rightarrow> char) \<Rightarrow> nat \<times> char \<Rightarrow> addition list \<Rightarrow> addition list" where
  "assign_step f = (\<lambda>(wc_idx, letter) adds. adds[wc_idx := (f letter, snd (adds ! wc_idx))])"

definition same_up_to_case :: "addition list \<Rightarrow> addition list \<Rightarrow> bool" where
  "same_up_to_case a1 a2 =
     (map snd a1 = map snd a2 \<and> map (\<lambda>a. lower_c (fst a)) a1 = map (\<lambda>a. lower_c (fst a)) a2)"

definition board_equiv :: "board \<Rightarrow> board \<Rightarrow> bool" where
  "board_equiv b1 b2 = (\<forall>p. map_option lower_c (b1 p) = map_option lower_c (b2 p))"

section \<open>The notions of the pattern claims\<close>

text \<open>
  The rack as the specification sees it: the multiset of its letters (upper-cased) and the
  number of its blanks. The fixed letters of a pattern, how many of them the rack letters
  cannot pay for (the shortfall, paid by blanks), and what is left of the rack after them.
\<close>

definition rack_letters :: "string \<Rightarrow> char multiset" where
  "rack_letters deck = mset (filter isalpha_c (upper_s deck))"

definition rack_blanks :: "string \<Rightarrow> nat" where
  "rack_blanks deck = count_list deck (CHR ''-'')"

definition fixed_letters_of :: "string \<Rightarrow> char multiset" where
  "fixed_letters_of pattern = mset (filter isalpha_c (upper_s pattern))"

definition fixed_shortfall :: "string \<Rightarrow> string \<Rightarrow> nat" where
  "fixed_shortfall pattern deck = size (fixed_letters_of pattern - rack_letters deck)"

definition remaining_letters :: "string \<Rightarrow> string \<Rightarrow> char multiset" where
  "remaining_letters pattern deck = rack_letters deck - fixed_letters_of pattern"

definition remaining_blanks :: "string \<Rightarrow> string \<Rightarrow> nat" where
  "remaining_blanks pattern deck = rack_blanks deck - fixed_shortfall pattern deck"

text \<open>
  A lexicon word fits a pattern with a rack: same length, the pattern's letters at their
  positions, and the letters under the wildcards supplied by the remaining rack, the blanks
  covering what the remaining letters do not. Everything is compared in upper case.
\<close>

definition wildcard_chars :: "string \<Rightarrow> string \<Rightarrow> char multiset" where
  "wildcard_chars pattern word =
     mset (map snd (filter (\<lambda>(p, w). p = CHR ''_'') (zip (upper_s pattern) (upper_s word))))"

definition matches_pattern :: "string \<Rightarrow> string \<Rightarrow> string \<Rightarrow> bool" where
  "matches_pattern pattern deck word =
     (length word = length pattern \<and>
      list_all (\<lambda>(p, w). isalpha_c p \<longrightarrow> w = p) (zip (upper_s pattern) (upper_s word)) \<and>
      size (wildcard_chars pattern word - remaining_letters pattern deck)
        \<le> remaining_blanks pattern deck)"

text \<open>
  A choice of run lengths for the ranges of a tokenised pattern, in order: it is admissible when
  it has one length per range, within the range's bounds; \<open>instantiate\<close> is the fixed pattern
  of the choice. The matcher's matches of one fixed pattern, as a set.
\<close>

fun instantiate :: "token list \<Rightarrow> nat list \<Rightarrow> string" where
  "instantiate [] ks = []"
| "instantiate (Chr c # ts) ks = c # instantiate ts ks"
| "instantiate (Range n m # ts) [] = instantiate ts []"
| "instantiate (Range n m # ts) (k # ks) = replicate k (CHR ''_'') @ instantiate ts ks"

fun admissible :: "token list \<Rightarrow> nat list \<Rightarrow> bool" where
  "admissible [] ks = (ks = [])"
| "admissible (Chr c # ts) ks = admissible ts ks"
| "admissible (Range n m # ts) [] = False"
| "admissible (Range n m # ts) (k # ks) = (n \<le> k \<and> k \<le> m \<and> admissible ts ks)"

definition matches_of :: "string \<Rightarrow> string \<Rightarrow> string list \<Rightarrow> string set" where
  "matches_of pat deck word_list =
     (case generate pat deck word_list of Inl _ \<Rightarrow> {} | Inr ms \<Rightarrow> set ms)"

text \<open>
  A tokenised pattern that consists of ranges with lower bound 0 only (or of nothing): the
  empty string is among its expansions.
\<close>

definition can_be_empty :: "token list \<Rightarrow> bool" where
  "can_be_empty ts = list_all (\<lambda>t. case t of Range n m \<Rightarrow> n = 0 | Chr c \<Rightarrow> False) ts"

subsection \<open>Auxiliary notions of the pattern proofs\<close>

text \<open>The step of the loop of \<open>__calculate_implicit_deck\<close>.\<close>

definition implicit_step :: "char \<Rightarrow> string \<Rightarrow> string" where
  "implicit_step char deck_list =
     (if isalpha_c char then
        (if char \<in> set deck_list then remove1 char deck_list
         else if CHR ''-'' \<in> set deck_list then remove1 (CHR ''-'') deck_list
         else deck_list)
      else deck_list)"

text \<open>The regular expression after its opening parenthesis.\<close>

definition range_tail :: "string \<Rightarrow> (nat \<times> nat \<times> string) option" where
  "range_tail r1 =
     (let d1 = takeWhile isdigit_c r1; r2 = dropWhile isdigit_c r1
      in if d1 = [] then None
         else (case r2 of
                 [] \<Rightarrow> None
               | c2 # r3 \<Rightarrow>
                   if c2 \<noteq> CHR '','' then None
                   else let d2 = takeWhile isdigit_c r3; r4 = dropWhile isdigit_c r3
                        in if d2 = [] then None
                           else (case r4 of
                                   [] \<Rightarrow> None
                                 | c3 # r5 \<Rightarrow>
                                     if c3 \<noteq> CHR '')'' then None
                                     else Some (int_of_digits d1, int_of_digits d2, r5))))"

text \<open>
  The letters that the validation of the expander counts in a tokenised pattern, and the
  tokens it accepts.
\<close>

definition token_letters :: "token list \<Rightarrow> string" where
  "token_letters ts =
     concat (map (\<lambda>t. case t of Range n m \<Rightarrow> [] | Chr c \<Rightarrow> if isalpha_c c then [upper_c c] else []) ts)"

definition tokens_ok :: "token list \<Rightarrow> bool" where
  "tokens_ok ts =
     list_all (\<lambda>t. case t of Range n m \<Rightarrow> n < m | Chr c \<Rightarrow> isalpha_c c \<or> c = CHR ''_'') ts"


section \<open>Properties of the positional checks\<close>

lemma length_np_unique: "length (np_unique xs) = card (set xs)"
  by (simp add: np_unique_def length_remdups_card_conv)

lemma card_gt1_iff: "finite S \<Longrightarrow> (Suc 0 < card S) = (\<exists>x\<in>S. \<exists>y\<in>S. x \<noteq> y)"
  using card_le_Suc0_iff_eq [of S] by auto

lemma unique_rows_gt1: "(1 < length (np_unique (map (\<lambda>(_, p). fst p) adds))) = several_rows adds"
proof -
  have "set (map (\<lambda>(_, p). fst p) adds) = (\<lambda>a. fst (snd a)) ` set adds"
    by (auto simp: case_prod_unfold)
  then show ?thesis
    by (simp add: length_np_unique card_gt1_iff several_rows_def del: set_map)
qed

lemma unique_cols_gt1: "(1 < length (np_unique (map (\<lambda>(_, p). snd p) adds))) = several_cols adds"
proof -
  have "set (map (\<lambda>(_, p). snd p) adds) = (\<lambda>a. snd (snd a)) ` set adds"
    by (auto simp: case_prod_unfold)
  then show ?thesis
    by (simp add: length_np_unique card_gt1_iff several_cols_def del: set_map)
qed

lemma unique_rows_eq1: "adds \<noteq> [] \<Longrightarrow> (length (np_unique (map (\<lambda>(_, p). fst p) adds)) = 1) = (\<not> several_rows adds)"
proof -
  assume "adds \<noteq> []"
  then have "card (set (map (\<lambda>(_, p). fst p) adds)) \<noteq> 0" by simp
  then have "0 < length (np_unique (map (\<lambda>(_, p). fst p) adds))"
    by (simp only: length_np_unique)
  then show ?thesis using unique_rows_gt1 [of adds] by linarith
qed

text \<open>
  Claim C7. The geometry check rejects exactly: the empty placement; a position outside the
  15x15 bounds; a position on an occupied cell; positions on more than one row and more than
  one column; and a placement whose coordinate span along the shared axis differs from the
  number of new tiles. Every other placement is accepted. The cases are tried in this order.
\<close>

theorem verify_word_addition_cases:
  "(adds = [] \<longrightarrow> verify_word_addition g adds = Inl NoLettersProvided) \<and>
   (adds \<noteq> [] \<and> (\<exists>a \<in> set adds. \<not> in_bounds (snd a)) \<longrightarrow>
      (\<exists>a \<in> set adds. \<not> in_bounds (snd a) \<and>
         verify_word_addition g adds = Inl (OutOfBounds (fst (snd a)) (snd (snd a))))) \<and>
   (adds \<noteq> [] \<and> (\<forall>a \<in> set adds. in_bounds (snd a)) \<and>
      (\<exists>a \<in> set adds. bget (board g) (snd a) \<noteq> None) \<longrightarrow>
      (\<exists>a \<in> set adds. bget (board g) (snd a) \<noteq> None \<and>
         verify_word_addition g adds = Inl (AlreadyOccupied (fst (snd a)) (snd (snd a))))) \<and>
   (adds \<noteq> [] \<and> (\<forall>a \<in> set adds. in_bounds (snd a) \<and> bget (board g) (snd a) = None) \<and>
      several_rows adds \<and> several_cols adds \<longrightarrow>
      verify_word_addition g adds = Inl NotSingleLine) \<and>
   (adds \<noteq> [] \<and> (\<forall>a \<in> set adds. in_bounds (snd a) \<and> bget (board g) (snd a) = None) \<and>
      \<not> (several_rows adds \<and> several_cols adds) \<and>
      shared_axis_span adds \<noteq> int (length adds) \<longrightarrow>
      verify_word_addition g adds = Inl NotContinuous) \<and>
   (adds \<noteq> [] \<and> (\<forall>a \<in> set adds. in_bounds (snd a) \<and> bget (board g) (snd a) = None) \<and>
      \<not> (several_rows adds \<and> several_cols adds) \<and>
      shared_axis_span adds = int (length adds) \<longrightarrow>
      verify_word_addition g adds = Inr True)"
proof (cases "adds = []")
  case True
  then show ?thesis by (simp add: verify_word_addition_def)
next
  case ne: False
  show ?thesis
  proof (cases "find (\<lambda>(_, p). \<not> in_bounds p) adds")
    case (Some a)
    then have 1: "a \<in> set adds" "\<not> in_bounds (snd a)"
      by (auto simp: find_Some_iff case_prod_unfold)
    have 2: "verify_word_addition g adds = Inl (OutOfBounds (fst (snd a)) (snd (snd a)))"
      using ne Some by (simp add: verify_word_addition_def case_prod_unfold)
    show ?thesis by (insert ne 1 2, intro conjI impI; blast)
  next
    case nb: None
    then have ib: "\<forall>a \<in> set adds. in_bounds (snd a)"
      by (auto simp: find_None_iff)
    show ?thesis
    proof (cases "find (\<lambda>(_, p). bget (board g) p \<noteq> None) adds")
      case (Some a)
      then have 1: "a \<in> set adds" "bget (board g) (snd a) \<noteq> None"
        by (auto simp: find_Some_iff case_prod_unfold)
      have 2: "verify_word_addition g adds = Inl (AlreadyOccupied (fst (snd a)) (snd (snd a)))"
        using ne nb Some by (simp add: verify_word_addition_def case_prod_unfold)
      show ?thesis by (insert ne ib 1 2, intro conjI impI; (blast | fastforce))
    next
      case no: None
      then have free: "\<forall>a \<in> set adds. bget (board g) (snd a) = None"
        by (auto simp: find_None_iff)
      have maps: "map (\<lambda>(_, p). snd p) adds = map (\<lambda>a. snd (snd a)) adds"
        "map (\<lambda>(_, p). fst p) adds = map (\<lambda>a. fst (snd a)) adds"
        by (simp_all add: case_prod_unfold)
      have v: "verify_word_addition g adds =
          (if several_rows adds \<and> several_cols adds then Inl NotSingleLine
           else if shared_axis_span adds \<noteq> int (length adds) then Inl NotContinuous
           else Inr True)"
        using ne nb no unique_rows_gt1 [of adds] unique_cols_gt1 [of adds] unique_rows_eq1 [OF ne]
        by (auto simp: verify_word_addition_def Let_def shared_axis_span_def span_length_def
            np_ptp_def maps)
      show ?thesis by (insert ne ib free v, intro conjI impI; simp)
    qed
  qed
qed

theorem verify_word_addition_cases_witness:
  "verify_word_addition (Game (Rule []))
     [(CHR ''C'', (7, 7)), (CHR ''A'', (7, 8)), (CHR ''T'', (7, 9))] = Inr True \<and>
   verify_word_addition (Game (Rule []))
     [(CHR ''C'', (7, 7)), (CHR ''T'', (7, 9))] = Inl NotContinuous"
proof -
  let ?g = "Game (Rule [])"
  let ?a = "[(CHR ''C'', (7, 7)), (CHR ''A'', (7, 8)), (CHR ''T'', (7, 9))] :: addition list"
  let ?b = "[(CHR ''C'', (7, 7)), (CHR ''T'', (7, 9))] :: addition list"
  have ha: "?a \<noteq> [] \<and> (\<forall>a \<in> set ?a. in_bounds (snd a) \<and> bget (board ?g) (snd a) = None) \<and>
      \<not> (several_rows ?a \<and> several_cols ?a) \<and> shared_axis_span ?a = int (length ?a)"
    by code_simp
  have hb: "?b \<noteq> [] \<and> (\<forall>a \<in> set ?b. in_bounds (snd a) \<and> bget (board ?g) (snd a) = None) \<and>
      \<not> (several_rows ?b \<and> several_cols ?b) \<and> shared_axis_span ?b \<noteq> int (length ?b)"
    by code_simp
  from verify_word_addition_cases [of ?a ?g] ha
  have 1: "verify_word_addition ?g ?a = Inr True" by blast
  from verify_word_addition_cases [of ?b ?g] hb
  have 2: "verify_word_addition ?g ?b = Inl NotContinuous" by blast
  from 1 2 show ?thesis by (rule conjI)
qed

section \<open>Properties of the board rule\<close>

lemma board_letter_count_0: "(board_letter_count b = 0) = board_is_empty b"
  by (auto simp: board_letter_count_def board_is_empty_def filter_empty_conv)

lemma orth_adjacent_adj:
  "orth_adjacent (r, c) q = (q \<in> set (map (\<lambda>(dr, dc). (r + dr, c + dc)) adj))"
proof -
  obtain r' c' where q: "q = (r', c')" by (cases q)
  show ?thesis unfolding q orth_adjacent_def adj_def by auto
qed

lemma filter_list_ex:
  "(if filter P xs = [] then False else list_ex Q (filter P xs)) = (\<exists>p \<in> set xs. P p \<and> Q p)"
  by (auto simp: list_ex_iff filter_empty_conv)

lemma set_adj_of_addition:
  "set (case a of (_, (r, c)) \<Rightarrow> map (\<lambda>(dr, dc). (r + dr, c + dc)) adj)
      = {q. orth_adjacent (snd a) q}"
proof -
  obtain ch r c where a: "a = (ch, (r, c))" by (cases a) auto
  show ?thesis unfolding a using orth_adjacent_adj [of r c] by auto
qed

lemma set_all_adj:
  "set (concat (map (\<lambda>(_, (r, c)). map (\<lambda>(dr, dc). (r + dr, c + dc)) adj) adds))
     = {q. \<exists>a \<in> set adds. orth_adjacent (snd a) q}"
  unfolding set_concat set_map image_image set_adj_of_addition by blast

lemma touches_existing_word_iff: "touches_existing_word g adds = touches_occupied g adds"
proof (cases "adds = []")
  case True
  then show ?thesis by (simp add: touches_existing_word_def touches_occupied_def)
next
  case False
  then have "touches_existing_word g adds =
      (\<exists>p \<in> set (concat (map (\<lambda>(_, (r, c)). map (\<lambda>(dr, dc). (r + dr, c + dc)) adj) adds)).
          in_bounds p \<and> bget (board g) p \<noteq> None)"
    unfolding touches_existing_word_def Let_def by (simp only: filter_list_ex if_False)
  also have "\<dots> = touches_occupied g adds"
    unfolding touches_occupied_def set_all_adj by blast
  finally show ?thesis .
qed

text \<open>
  Claim C8. On a board with zero occupied cells the board rule accepts exactly when some new
  tile covers the centre cell (7,7), and raises the first-move error otherwise; on a board with
  an occupied cell it accepts exactly when some new tile is orthogonally adjacent to an
  occupied cell within the bounds, and raises the disconnected error otherwise.
\<close>

theorem check_board_valid_cases:
  "(board_is_empty (board g) \<longrightarrow>
      check_board_valid g adds =
        (if \<exists>a \<in> set adds. snd a = (7, 7) then Inr True else Inl FirstWordMustCoverStart)) \<and>
   (\<not> board_is_empty (board g) \<longrightarrow>
      check_board_valid g adds =
        (if touches_occupied g adds then Inr True else Inl MustConnect))"
proof -
  have "list_ex (\<lambda>(_, p). fst p = fst start_pos \<and> snd p = snd start_pos) adds
      = (\<exists>a \<in> set adds. snd a = (7, 7))"
    by (auto simp: list_ex_iff start_pos_def case_prod_unfold prod_eq_iff)
  then show ?thesis
    by (simp add: check_board_valid_def board_letter_count_0 touches_existing_word_iff)
qed

theorem check_board_valid_cases_witness:
  "check_board_valid (Game (Rule [])) [(CHR ''A'', (7, 7)), (CHR ''T'', (7, 8))] = Inr True \<and>
   check_board_valid (Game (Rule [])) [(CHR ''A'', (3, 7)), (CHR ''T'', (3, 8))]
     = Inl FirstWordMustCoverStart \<and>
   check_board_valid (Game (Rule [])\<lparr>board := bset empty_grid (7, 7) (CHR ''A'')\<rparr>)
     [(CHR ''T'', (7, 8))] = Inr True \<and>
   check_board_valid (Game (Rule [])\<lparr>board := bset empty_grid (7, 7) (CHR ''A'')\<rparr>)
     [(CHR ''T'', (7, 9))] = Inl MustConnect"
proof -
  let ?g = "Game (Rule [])"
  let ?h = "Game (Rule [])\<lparr>board := bset empty_grid (7, 7) (CHR ''A'')\<rparr>"
  have e: "board_is_empty (board ?g)"
    by (simp add: board_is_empty_def Game_def empty_grid_def)
  have n: "\<not> board_is_empty (board ?h)"
    unfolding board_is_empty_def by (auto simp: bset_def np_norm_def intro!: exI [of _ 7])
  have t1: "touches_occupied ?h [(CHR ''T'', (7, 8))]"
    unfolding touches_occupied_def
    by (auto simp: orth_adjacent_def in_bounds_def bget_def bset_def np_norm_def
        intro!: exI [of _ 7])
  have t2: "\<not> touches_occupied ?h [(CHR ''T'', (7, 9))]"
    unfolding touches_occupied_def
    by (auto simp: orth_adjacent_def in_bounds_def bget_def bset_def np_norm_def empty_grid_def
        split: if_splits)
  have 1: "check_board_valid ?g [(CHR ''A'', (7, 7)), (CHR ''T'', (7, 8))] = Inr True"
    using check_board_valid_cases [of ?g "[(CHR ''A'', (7, 7)), (CHR ''T'', (7, 8))]"] e by simp
  have 2: "check_board_valid ?g [(CHR ''A'', (3, 7)), (CHR ''T'', (3, 8))]
      = Inl FirstWordMustCoverStart"
    using check_board_valid_cases [of ?g "[(CHR ''A'', (3, 7)), (CHR ''T'', (3, 8))]"] e by simp
  have 3: "check_board_valid ?h [(CHR ''T'', (7, 8))] = Inr True"
    using check_board_valid_cases [of ?h "[(CHR ''T'', (7, 8))]"] n t1 by presburger
  have 4: "check_board_valid ?h [(CHR ''T'', (7, 9))] = Inl MustConnect"
    using check_board_valid_cases [of ?h "[(CHR ''T'', (7, 9))]"] n t2 by presburger
  from 1 2 3 4 show ?thesis by blast
qed

section \<open>Properties of the scoring engine\<close>

lemma in_bounds_pos_valid: "in_bounds p \<Longrightarrow> pos_valid p"
  by (simp add: in_bounds_def pos_valid_def np_valid_def)

lemma islower_isalpha: "is_blank_tile ch = islower_c ch"
  by (auto simp: is_blank_tile_def isalpha_c_def)

lemma blank_positions_iff:
  "(p \<in> set (map snd (filter (\<lambda>(ch, _). is_blank_tile ch) adds))) = resolved_blank_at adds p"
  by (auto simp: resolved_blank_at_def islower_isalpha)

lemma new_positions_iff:
  "(p \<in> set (map snd (map (\<lambda>(ch, pos). (upper_c ch, pos)) adds))) = newly_placed adds p"
  by (force simp: newly_placed_def)

lemma score_step_spec:
  assumes "\<And>q. (q \<in> set bp) = resolved_blank_at adds q"
    and "\<And>q. (q \<in> set np) = newly_placed adds q"
  shows "score_step (rule g) (overlay (board g) adds) bp np p acc =
   (if newly_placed adds p
    then (fst acc + base_value g adds p * letter_multiplier (rule g) (grid_cell p),
          snd acc * max 1 (word_multiplier (rule g) (grid_cell p)))
    else (fst acc + base_value g adds p, snd acc))"
  unfolding score_step_def assms
  by (simp add: base_value_def point_value_def grid_cell_def Let_def)

lemma fold_score_step:
  assumes "\<And>q. (q \<in> set bp) = resolved_blank_at adds q"
    and "\<And>q. (q \<in> set np) = newly_placed adds q"
  shows "fold (score_step (rule g) (overlay (board g) adds) bp np) w (s, m) =
   (s + letter_sum g adds w, m * word_mult g adds w)"
proof (induction w arbitrary: s m)
  case Nil
  then show ?case by (simp add: letter_sum_def word_mult_def)
next
  case (Cons p w)
  have step: "fold (score_step (rule g) (overlay (board g) adds) bp np) (p # w) (s, m) =
      fold (score_step (rule g) (overlay (board g) adds) bp np) w
        (score_step (rule g) (overlay (board g) adds) bp np p (s, m))"
    by simp
  show ?case
  proof (cases "newly_placed adds p")
    case True
    have st: "score_step (rule g) (overlay (board g) adds) bp np p (s, m) =
        (s + base_value g adds p * letter_multiplier (rule g) (grid_cell p),
         m * max 1 (word_multiplier (rule g) (grid_cell p)))"
      using score_step_spec [OF assms, of g p "(s, m)"] True by simp
    show ?thesis
      unfolding step st Cons.IH
      by (simp add: letter_sum_def word_mult_def True algebra_simps)
  next
    case False
    have st: "score_step (rule g) (overlay (board g) adds) bp np p (s, m) =
        (s + base_value g adds p, m)"
      using score_step_spec [OF assms, of g p "(s, m)"] False by simp
    show ?thesis
      unfolding step st Cons.IH
      by (simp add: letter_sum_def word_mult_def False algebra_simps)
  qed
qed

lemma score_word_spec:
  assumes "\<And>q. (q \<in> set bp) = resolved_blank_at adds q"
    and "\<And>q. (q \<in> set np) = newly_placed adds q"
  shows "score_word (rule g) (overlay (board g) adds) bp np = word_score g adds"
proof
  fix w
  show "score_word (rule g) (overlay (board g) adds) bp np w = word_score g adds w"
    unfolding score_word_def Let_def fold_score_step [OF assms] word_score_def by simp
qed

lemma words_total_spec: "words_total g adds = move_score g adds"
  unfolding words_total_def Let_def move_score_def formed_words_def overlay_def [symmetric]
  by (simp only: score_word_spec [OF blank_positions_iff new_positions_iff])

lemma move_score_Nil: "move_score g [] = 0"
  by (simp add: move_score_def formed_words_def extract_word_positions_def)


text \<open>
  Claim C1, as stated: the score of every move is the sum over its formed words of the letter
  sum times the word multiplier. It fails for a move of seven tiles, which scores 50 more:
  R,E,T,A,I,N,S through the centre scores 64 while its words sum to 14.
\<close>

theorem score_is_word_sum_counterexample:
  "score_calculator (Game (Rule []))
     [(CHR ''R'', (7, 4)), (CHR ''E'', (7, 5)), (CHR ''T'', (7, 6)), (CHR ''A'', (7, 7)),
      (CHR ''I'', (7, 8)), (CHR ''N'', (7, 9)), (CHR ''S'', (7, 10))] False
   \<noteq> Inr (move_score (Game (Rule []))
     [(CHR ''R'', (7, 4)), (CHR ''E'', (7, 5)), (CHR ''T'', (7, 6)), (CHR ''A'', (7, 7)),
      (CHR ''I'', (7, 8)), (CHR ''N'', (7, 9)), (CHR ''S'', (7, 10))])"
  by code_simp

text \<open>
  Claim C1, amended: for every placement on the board, on any board, the score of the move is
  the sum over each formed word of its letter sum (base value times letter multiplier on the
  newly placed cells, base value alone on the others) times its word multiplier (the product
  over the newly placed cells of the word multiplier floored at 1), plus the bonus of 50 when
  the placement has seven tiles or the bonus is forced; the empty placement scores 0. The base
  value is 0 for a lower-case tile of the placement and the letter's point value otherwise.
\<close>

theorem score_calculator_formula:
  "on_board adds \<Longrightarrow>
   score_calculator g adds forced =
     Inr (if adds = [] then 0 else move_score g adds + bonus adds forced)"
proof -
  assume "on_board adds"
  then have "\<not> (\<exists>a \<in> set adds. \<not> pos_valid (snd a))"
    by (auto simp: on_board_def in_bounds_pos_valid)
  then show ?thesis
    by (simp add: score_calculator_def words_total_spec bonus_def Let_def)
qed

theorem score_calculator_formula_witness:
  "score_calculator (Game (Rule [''quite'']))
     [(CHR ''Q'', (7, 3)), (CHR ''U'', (7, 4)), (CHR ''I'', (7, 5)), (CHR ''T'', (7, 6)),
      (CHR ''E'', (7, 7))] False = Inr 48"
proof -
  let ?g = "Game (Rule [''quite''])"
  let ?a = "[(CHR ''Q'', (7, 3)), (CHR ''U'', (7, 4)), (CHR ''I'', (7, 5)), (CHR ''T'', (7, 6)),
      (CHR ''E'', (7, 7))] :: addition list"
  have b: "on_board ?a" by code_simp
  have m: "(if ?a = [] then 0 else move_score ?g ?a + bonus ?a False) = 48" by code_simp
  show ?thesis
    using score_calculator_formula [OF b, of ?g False] unfolding m .
qed

text \<open>
  Claim C10, as stated: 50 is added to the total exactly when the placement has seven tiles or
  the bonus is forced. It fails for the empty placement with the bonus forced, which scores 0.
\<close>

theorem bonus_iff_counterexample:
  "score_calculator (Game (Rule [])) [] True \<noteq> Inr (words_total (Game (Rule [])) [] + 50)"
  by code_simp

text \<open>
  Claim C10, amended: for every non-empty placement on the board, the score is the total of the
  formed words plus exactly 50 if and only if the placement has exactly seven new tiles or the
  bonus is forced, and is the total alone otherwise; the empty placement scores 0 whatever the
  flag.
\<close>

theorem bonus_added_iff:
  "(adds = [] \<longrightarrow> score_calculator g adds forced = Inr 0) \<and>
   (adds \<noteq> [] \<and> on_board adds \<longrightarrow>
      (score_calculator g adds forced = Inr (words_total g adds + 50))
         = (length adds = 7 \<or> forced) \<and>
      (score_calculator g adds forced = Inr (words_total g adds))
         = (\<not> (length adds = 7 \<or> forced)))"
proof -
  have "\<not> (\<exists>a \<in> set adds. \<not> pos_valid (snd a))" if "on_board adds"
    using that by (auto simp: on_board_def in_bounds_pos_valid)
  then show ?thesis
    by (auto simp: score_calculator_def Let_def)
qed

theorem bonus_added_iff_witness:
  "score_calculator (Game (Rule [''cat'']))
     [(CHR ''C'', (8, 9)), (CHR ''A'', (8, 10)), (CHR ''T'', (8, 11))] True = Inr 55 \<and>
   score_calculator (Game (Rule [''cat'']))
     [(CHR ''C'', (8, 9)), (CHR ''A'', (8, 10)), (CHR ''T'', (8, 11))] False = Inr 5"
proof -
  let ?g = "Game (Rule [''cat''])"
  let ?a = "[(CHR ''C'', (8, 9)), (CHR ''A'', (8, 10)), (CHR ''T'', (8, 11))] :: addition list"
  have b: "?a \<noteq> [] \<and> on_board ?a" by code_simp
  have t: "words_total ?g ?a = 5" by code_simp
  have l: "length ?a \<noteq> 7" by simp
  have 1: "score_calculator ?g ?a True = Inr (words_total ?g ?a + 50)"
    using bonus_added_iff [of ?a ?g True] b by blast
  have 2: "score_calculator ?g ?a False = Inr (words_total ?g ?a)"
    using bonus_added_iff [of ?a ?g False] b l by blast
  show ?thesis using 1 2 unfolding t by simp
qed

section \<open>Properties of dictionary validation and wildcard resolution\<close>

lemma lower_lower: "lower_c (lower_c c) = lower_c c"
  by (auto simp: lower_c_def isupper_c_def of_char_of)

lemma ascii_uppercase_isupper: "c \<in> set ascii_uppercase \<Longrightarrow> isupper_c c"
  by (auto simp: ascii_uppercase_def isupper_c_def)

lemma lower_of_upper_not_dash: "isupper_c c \<Longrightarrow> lower_c c \<noteq> CHR ''-''"
proof -
  assume u: "isupper_c c"
  then have "islower_c (lower_c c)"
    by (auto simp: lower_c_def isupper_c_def islower_c_def of_char_of)
  moreover have "\<not> islower_c (CHR ''-'')" by (simp add: islower_c_def)
  ultimately show ?thesis by metis
qed

lemma lower_of_upper_islower: "isupper_c c \<Longrightarrow> islower_c (lower_c c)"
  by (auto simp: lower_c_def isupper_c_def islower_c_def of_char_of)

lemma assign_wildcards_fold:
  "assign_wildcards f wi combo adds = fold (assign_step f) (zip wi combo) adds"
  by (simp add: assign_wildcards_def assign_step_def)

lemma map_snd_update_same: "map snd (a[i := (x, snd (a ! i))]) = map snd a"
proof (cases "i < length a")
  case True
  then have "(map snd a)[i := snd (a ! i)] = (map snd a)[i := map snd a ! i]" by simp
  then show ?thesis by (simp add: map_update del: nth_map)
next
  case False
  then show ?thesis by (simp add: list_update_beyond)
qed

lemma assign_step_snd: "map snd (assign_step f z a) = map snd a"
  by (cases z) (simp add: assign_step_def map_snd_update_same)

lemma fold_assign_snd: "map snd (fold (assign_step f) zs a) = map snd a"
  by (induction zs arbitrary: a) (simp_all add: assign_step_snd)

lemma fold_assign_length: "length (fold (assign_step f) zs a) = length a"
  using fold_assign_snd [of f zs a] by (metis length_map)

lemma fold_assign_other:
  "i \<notin> fst ` set zs \<Longrightarrow> fold (assign_step f) zs a ! i = a ! i"
proof (induction zs arbitrary: a)
  case Nil
  then show ?case by simp
next
  case (Cons z zs)
  obtain k l where z: "z = (k, l)" by (cases z)
  from Cons.prems have ne: "i \<noteq> k" and rest: "i \<notin> fst ` set zs" by (auto simp: z)
  have "fold (assign_step f) (z # zs) a ! i = assign_step f z a ! i"
    using Cons.IH [OF rest] by simp
  also have "\<dots> = a ! i" using ne by (simp add: z assign_step_def)
  finally show ?case .
qed

lemma fold_assign_hit:
  "distinct (map fst zs) \<Longrightarrow> (i, l) \<in> set zs \<Longrightarrow> i < length a \<Longrightarrow>
   fold (assign_step f) zs a ! i = (f l, snd (a ! i))"
proof (induction zs arbitrary: a)
  case Nil
  then show ?case by simp
next
  case (Cons z zs)
  obtain k m where z: "z = (k, m)" by (cases z)
  show ?case
  proof (cases "(i, l) = z")
    case True
    then have "i \<notin> fst ` set zs" using Cons.prems(1) by (auto simp: z)
    then have "fold (assign_step f) (z # zs) a ! i = assign_step f z a ! i"
      using fold_assign_other by simp
    also have "\<dots> = (f l, snd (a ! i))"
      using True Cons.prems(3) by (auto simp: z assign_step_def)
    finally show ?thesis .
  next
    case False
    then have mem: "(i, l) \<in> set zs" using Cons.prems(2) by auto
    have d: "distinct (map fst zs)" using Cons.prems(1) by simp
    have ik: "i \<noteq> k" using Cons.prems(1) mem by (force simp: z)
    have len: "i < length (assign_step f z a)"
      using Cons.prems(3) by (simp add: z assign_step_def)
    have "fold (assign_step f) (z # zs) a ! i = (f l, snd (assign_step f z a ! i))"
      using Cons.IH [OF d mem len] by simp
    also have "assign_step f z a ! i = a ! i" using ik by (simp add: z assign_step_def)
    finally show ?thesis .
  qed
qed

lemma wildcard_indices_props:
  "distinct (wildcard_indices_of adds)"
  "i \<in> set (wildcard_indices_of adds) \<longleftrightarrow> i < length adds \<and> fst (adds ! i) = CHR ''-''"
  by (auto simp: wildcard_indices_of_def)

lemma set_product_repeat:
  "set (product_repeat xs k) = {ys. length ys = k \<and> set ys \<subseteq> set xs}"
proof (induction k)
  case 0
  then show ?case by auto
next
  case (Suc k)
  show ?case
  proof (rule set_eqI)
    fix ys
    show "ys \<in> set (product_repeat xs (Suc k)) \<longleftrightarrow> ys \<in> {ys. length ys = Suc k \<and> set ys \<subseteq> set xs}"
    proof (cases ys)
      case Nil
      then show ?thesis by (auto simp: Suc.IH)
    next
      case (Cons y ys')
      then show ?thesis by (auto simp: Suc.IH)
    qed
  qed
qed

lemma board_equiv_refl: "board_equiv b b"
  by (simp add: board_equiv_def)

lemma board_equiv_None: "board_equiv b1 b2 \<Longrightarrow> (b1 p = None) = (b2 p = None)"
  unfolding board_equiv_def by (metis map_option_is_None)

lemma board_equiv_bset:
  "board_equiv b1 b2 \<Longrightarrow> lower_c c1 = lower_c c2 \<Longrightarrow> board_equiv (bset b1 p c1) (bset b2 p c2)"
  by (simp add: board_equiv_def bset_def)

lemma place_all_Cons: "place_all b ((letter, p) # rest) = place_all (bset b p letter) rest"
  by (simp add: place_all_def)

lemma place_all_Nil: "place_all b [] = b"
  by (simp add: place_all_def)

lemma place_all_equiv:
  "same_up_to_case a1 a2 \<Longrightarrow> board_equiv b1 b2 \<Longrightarrow>
   board_equiv (place_all b1 a1) (place_all b2 a2)"
proof (induction a1 arbitrary: a2 b1 b2)
  case Nil
  then show ?case by (simp add: same_up_to_case_def place_all_Nil)
next
  case (Cons x xs)
  from Cons.prems(1) obtain y ys where a2: "a2 = y # ys"
    by (cases a2) (auto simp: same_up_to_case_def)
  obtain c1 p1 where x: "x = (c1, p1)" by (cases x)
  obtain c2 p2 where y: "y = (c2, p2)" by (cases y)
  from Cons.prems(1) have pp: "p1 = p2" and cc: "lower_c c1 = lower_c c2"
    and rest: "same_up_to_case xs ys"
    by (auto simp: same_up_to_case_def a2 x y)
  have "board_equiv (bset b1 p1 c1) (bset b2 p2 c2)"
    using board_equiv_bset [OF Cons.prems(2) cc] pp by simp
  from Cons.IH [OF rest this] show ?case
    by (simp add: a2 x y place_all_Cons)
qed

lemma extract_word_positions_cong:
  assumes "map snd a1 = map snd a2"
    and "\<And>p. (tb1 p \<noteq> None) = (tb2 p \<noteq> None)"
  shows "extract_word_positions tb1 a1 = extract_word_positions tb2 a2"
proof -
  have e: "(a1 = []) = (a2 = [])" using assms(1) by (metis map_is_Nil_conv)
  show ?thesis
    unfolding extract_word_positions_def e assms by (rule refl)
qed

lemma lower_s_cell_str:
  "board_equiv b1 b2 \<Longrightarrow> lower_s (cell_str (bget b1 p)) = lower_s (cell_str (bget b2 p))"
proof -
  assume "board_equiv b1 b2"
  then have "map_option lower_c (bget b1 p) = map_option lower_c (bget b2 p)"
    by (simp add: board_equiv_def bget_def)
  then show ?thesis
    by (cases "bget b1 p"; cases "bget b2 p") (auto simp: cell_str_def lower_s_def)
qed

lemma lower_s_word:
  "board_equiv b1 b2 \<Longrightarrow>
   lower_s (concat (map (\<lambda>p. cell_str (bget b1 p)) w)) =
   lower_s (concat (map (\<lambda>p. cell_str (bget b2 p)) w))"
proof (induction w)
  case Nil
  then show ?case by simp
next
  case (Cons p w)
  have "lower_s (cell_str (bget b1 p)) = lower_s (cell_str (bget b2 p))"
    using lower_s_cell_str [OF Cons.prems] .
  then show ?case using Cons.IH [OF Cons.prems] by (simp add: lower_s_def)
qed

lemma all_words_valid_case:
  assumes "same_up_to_case a1 a2"
  shows "all_words_valid g a1 = all_words_valid g a2"
proof -
  have ps: "map snd a1 = map snd a2" using assms by (simp add: same_up_to_case_def)
  then have e: "(a1 = []) = (a2 = [])" by (metis map_is_Nil_conv)
  have v: "(\<exists>a \<in> set a1. \<not> pos_valid (snd a)) = (\<exists>a \<in> set a2. \<not> pos_valid (snd a))"
  proof -
    have "snd ` set a1 = snd ` set a2" using ps by (metis set_map)
    then show ?thesis by (metis (no_types, lifting) image_iff)
  qed
  let ?t1 = "place_all (board g) a1" and ?t2 = "place_all (board g) a2"
  have be: "board_equiv ?t1 ?t2"
    using place_all_equiv [OF assms board_equiv_refl] .
  have ex: "extract_word_positions ?t1 a1 = extract_word_positions ?t2 a2"
  proof (rule extract_word_positions_cong [OF ps])
    fix p
    show "(?t1 p \<noteq> None) = (?t2 p \<noteq> None)"
      using board_equiv_None [OF be, of p] by simp
  qed
  show ?thesis
  proof (cases "a1 = [] \<or> (\<exists>a \<in> set a1. \<not> pos_valid (snd a))")
    case True
    then show ?thesis using e v
      by (auto simp: all_words_valid_def get_all_affected_words_def)
  next
    case False
    let ?W = "extract_word_positions ?t2 a2"
    have g1: "get_all_affected_words g a1 =
        Inr (remdups (map (\<lambda>w. concat (map (\<lambda>p. cell_str (bget ?t1 p)) w)) ?W))"
      using False by (simp add: get_all_affected_words_def Let_def ex)
    have g2: "get_all_affected_words g a2 =
        Inr (remdups (map (\<lambda>w. concat (map (\<lambda>p. cell_str (bget ?t2 p)) w)) ?W))"
      using False e v by (simp add: get_all_affected_words_def Let_def)
    show ?thesis
      unfolding all_words_valid_def g1 g2
      by (simp add: list_all_iff lower_s_word [OF be])
  qed
qed

lemma wildcard_indices_Cons:
  "wildcard_indices_of (a # rest) =
     (if is_wildcard a then [0] else []) @ map Suc (wildcard_indices_of rest)"
proof -
  have "[0..<length (a # rest)] = 0 # map Suc [0..<length rest]"
    by (simp add: upt_conv_Cons map_Suc_upt del: upt_Suc)
  then show ?thesis
    by (simp add: wildcard_indices_of_def is_wildcard_def filter_map comp_def del: upt_Suc)
qed

lemma length_wildcard_indices:
  "length (wildcard_indices_of adds) = length (filter is_wildcard adds)"
proof (induction adds)
  case Nil
  then show ?case by (simp add: wildcard_indices_of_def)
next
  case (Cons a rest)
  then show ?case by (simp add: wildcard_indices_Cons)
qed

lemma wildcard_indices_Nil_iff:
  "(wildcard_indices_of adds = []) = (\<not> (\<exists>a \<in> set adds. is_wildcard a))"
  using length_wildcard_indices [of adds]
  by (metis filter_False filter_empty_conv length_0_conv)

lemma wildcard_positions_code:
  "map (\<lambda>i. snd (adds ! i)) (wildcard_indices_of adds) = wildcard_positions adds"
proof (induction adds)
  case Nil
  then show ?case by (simp add: wildcard_indices_of_def wildcard_positions_def)
next
  case (Cons a rest)
  have "map (\<lambda>i. snd ((a # rest) ! i)) (map Suc (wildcard_indices_of rest))
      = map (\<lambda>i. snd (rest ! i)) (wildcard_indices_of rest)"
    by (simp add: comp_def)
  then show ?case
    using Cons.IH by (simp add: wildcard_indices_Cons wildcard_positions_def)
qed

lemma fold_assign_Suc:
  "fold (assign_step f) (zip (map Suc is) cs) (x # a) = x # fold (assign_step f) (zip is cs) a"
proof (induction "is" arbitrary: cs a)
  case Nil
  then show ?case by simp
next
  case (Cons i "is")
  show ?case
  proof (cases cs)
    case Nil
    then show ?thesis by simp
  next
    case (Cons c cs')
    then show ?thesis
      using Cons.IH by (simp add: assign_step_def)
  qed
qed

lemma assign_wildcards_fill:
  "length combo = length (filter is_wildcard adds) \<Longrightarrow>
   assign_wildcards f (wildcard_indices_of adds) combo adds = fill_wildcards (map f combo) adds"
proof (induction adds arbitrary: combo)
  case Nil
  then show ?case by (simp add: assign_wildcards_fold wildcard_indices_of_def)
next
  case (Cons a rest)
  show ?case
  proof (cases "is_wildcard a")
    case True
    with Cons.prems obtain c cs where combo: "combo = c # cs"
      and len: "length cs = length (filter is_wildcard rest)"
      by (cases combo) auto
    have "assign_wildcards f (wildcard_indices_of (a # rest)) combo (a # rest)
        = fold (assign_step f) (zip (map Suc (wildcard_indices_of rest)) cs)
            ((f c, snd a) # rest)"
      using True by (simp add: assign_wildcards_fold wildcard_indices_Cons combo assign_step_def)
    also have "\<dots> = (f c, snd a) # assign_wildcards f (wildcard_indices_of rest) cs rest"
      by (simp add: fold_assign_Suc assign_wildcards_fold)
    finally show ?thesis
      using True Cons.IH [OF len] by (simp add: combo)
  next
    case False
    with Cons.prems have len: "length combo = length (filter is_wildcard rest)" by simp
    have "assign_wildcards f (wildcard_indices_of (a # rest)) combo (a # rest)
        = a # assign_wildcards f (wildcard_indices_of rest) combo rest"
      using False by (simp add: assign_wildcards_fold wildcard_indices_Cons fold_assign_Suc)
    then show ?thesis
      using False Cons.IH [OF len] by simp
  qed
qed

lemma fill_snd: "map snd (fill_wildcards ls adds) = map snd adds"
  by (induction adds arbitrary: ls) (auto split: list.splits)

lemma fill_same_up_to_case:
  "same_up_to_case (fill_wildcards ls adds) (fill_wildcards (map lower_c ls) adds)"
proof (induction adds arbitrary: ls)
  case Nil
  then show ?case by (simp add: same_up_to_case_def)
next
  case (Cons a rest)
  show ?case
    using Cons.IH [of ls] Cons.IH [of "tl ls"] Cons.IH [of "[]"]
    by (cases ls) (auto simp: same_up_to_case_def lower_lower)
qed

lemma fill_no_wildcard:
  "length ls = length (filter is_wildcard adds) \<Longrightarrow> CHR ''-'' \<notin> set ls \<Longrightarrow>
   \<not> (\<exists>a \<in> set (fill_wildcards ls adds). is_wildcard a)"
proof (induction adds arbitrary: ls)
  case Nil
  then show ?case by simp
next
  case (Cons a rest)
  show ?case
  proof (cases "is_wildcard a")
    case True
    with Cons.prems obtain l ls' where ls: "ls = l # ls'"
      and len: "length ls' = length (filter is_wildcard rest)"
      by (cases ls) auto
    have "CHR ''-'' \<notin> set ls'" "l \<noteq> CHR ''-''" using Cons.prems(2) by (auto simp: ls)
    then show ?thesis
      using True Cons.IH [OF len] by (simp add: ls is_wildcard_def)
  next
    case False
    with Cons.prems have "length ls = length (filter is_wildcard rest)" by simp
    from Cons.IH [OF this Cons.prems(2)] show ?thesis using False by simp
  qed
qed

lemma set_valid_combinations:
  "set (valid_combinations g adds) =
     {c. length c = length (filter is_wildcard adds) \<and> set c \<subseteq> set ascii_uppercase \<and>
         all_words_valid g (fill_wildcards c adds)}"
proof -
  have "\<And>c. length c = length (filter is_wildcard adds) \<Longrightarrow>
      assign_wildcards id (wildcard_indices_of adds) c adds = fill_wildcards c adds"
    using assign_wildcards_fill [of _ adds id] by simp
  then show ?thesis
    unfolding valid_combinations_def Let_def
    by (auto simp: set_product_repeat length_wildcard_indices)
qed

lemma check_word_valid_find_None:
  assumes "on_board adds" "free_cells g adds"
  shows "find (\<lambda>(_, p). \<not> pos_valid p \<or> bget (board g) p \<noteq> None) adds = None"
  using assms
  by (auto simp: find_None_iff on_board_def free_cells_def in_bounds_pos_valid)

lemma check_word_valid_no_wildcards:
  assumes "on_board adds" "free_cells g adds" "\<not> (\<exists>a \<in> set adds. is_wildcard a)"
    and "all_words_valid g adds"
  shows "check_word_valid g rnd adds = Inr adds"
proof -
  have wi: "wildcard_indices_of adds = []"
    using assms(3) by (simp add: wildcard_indices_Nil_iff)
  from assms(4) obtain ws where ws: "get_all_affected_words g adds = Inr ws"
    and ok: "list_all (\<lambda>word. lower_s word \<in> set (scrabble_dictionary (rule g))) ws"
    by (auto simp: all_words_valid_def split: sum.splits)
  have "filter (\<lambda>word. lower_s word \<notin> set (scrabble_dictionary (rule g))) ws = []"
    using ok by (auto simp: list_all_iff filter_empty_conv)
  then show ?thesis
    unfolding check_word_valid_def check_word_valid_find_None [OF assms(1,2)]
    by (simp add: wi ws Let_def)
qed

lemma check_word_valid_wildcards:
  assumes "on_board adds" "free_cells g adds" "\<exists>a \<in> set adds. is_wildcard a"
  shows "check_word_valid g rnd adds =
     (if valid_combinations g adds = [] then Inl (NoValidCombination (wildcard_positions adds))
      else Inr (fill_wildcards
                  (map lower_c (valid_combinations g adds ! (rnd mod length (valid_combinations g adds))))
                  adds))"
proof -
  have wi: "wildcard_indices_of adds \<noteq> []"
    using assms(3) by (simp add: wildcard_indices_Nil_iff)
  show ?thesis
  proof (cases "valid_combinations g adds = []")
    case True
    then show ?thesis
      unfolding check_word_valid_def check_word_valid_find_None [OF assms(1,2)]
      by (simp add: wi Let_def wildcard_positions_code)
  next
    case False
    let ?v = "valid_combinations g adds"
    let ?c = "?v ! (rnd mod length ?v)"
    have "?c \<in> set ?v" using False by simp
    then have "length ?c = length (filter is_wildcard adds)"
      by (simp add: set_valid_combinations)
    then have "assign_wildcards lower_c (wildcard_indices_of adds) ?c adds
        = fill_wildcards (map lower_c ?c) adds"
      by (rule assign_wildcards_fill)
    then show ?thesis
      unfolding check_word_valid_def check_word_valid_find_None [OF assms(1,2)]
      using False by (simp add: wi Let_def)
  qed
qed

lemma resolved_roundtrip:
  assumes "on_board adds" "free_cells g adds"
    and "c \<in> set (valid_combinations g adds)"
  shows "check_word_valid g rnd (fill_wildcards (map lower_c c) adds)
      = Inr (fill_wildcards (map lower_c c) adds)"
proof -
  let ?r = "fill_wildcards (map lower_c c) adds"
  from assms(3) have len: "length c = length (filter is_wildcard adds)"
    and up: "set c \<subseteq> set ascii_uppercase"
    and ok: "all_words_valid g (fill_wildcards c adds)"
    by (simp_all add: set_valid_combinations)
  have ps: "map snd ?r = map snd adds" by (rule fill_snd)
  then have sp: "snd ` set ?r = snd ` set adds" by (metis set_map)
  have ob: "on_board ?r"
    using assms(1) sp unfolding on_board_def by (metis (no_types, lifting) image_iff)
  have fc: "free_cells g ?r"
    using assms(2) sp unfolding free_cells_def by (metis (no_types, lifting) image_iff)
  have nd: "CHR ''-'' \<notin> set (map lower_c c)"
  proof
    assume "CHR ''-'' \<in> set (map lower_c c)"
    then obtain x where x: "x \<in> set c" "lower_c x = CHR ''-''" by auto
    then have "isupper_c x" using up ascii_uppercase_isupper by blast
    from lower_of_upper_not_dash [OF this] x(2) show False by simp
  qed
  have nw: "\<not> (\<exists>a \<in> set ?r. is_wildcard a)"
    by (rule fill_no_wildcard [OF _ nd]) (simp add: len)
  have "all_words_valid g ?r"
    using all_words_valid_case [OF fill_same_up_to_case, of g c adds] ok by simp
  from check_word_valid_no_wildcards [OF ob fc nw this] show ?thesis .
qed

text \<open>
  Claim C9. For every placement with wildcard tiles (on the board, on free cells), the
  combinations kept are exactly the tuples of alphabet letters, one per wildcard, under which
  all affected words are in the dictionary; when there is none the check raises the error that
  names the wildcard positions; otherwise it returns the placement with the wildcards
  rewritten to the lower-cased letters of one kept combination. Every kept combination can be
  the one chosen, its letters are written in lower case, and the placement resolved with it
  passes the dictionary validation again, unchanged, whatever the random draw.
\<close>

theorem wildcard_resolution:
  assumes "on_board adds" and "free_cells g adds" and "\<exists>a \<in> set adds. is_wildcard a"
  shows "set (valid_combinations g adds) =
           {c. length c = length (wildcard_positions adds) \<and> set c \<subseteq> set ascii_uppercase \<and>
               all_words_valid g (fill_wildcards c adds)} \<and>
         (valid_combinations g adds = [] \<longrightarrow>
            check_word_valid g rnd adds = Inl (NoValidCombination (wildcard_positions adds))) \<and>
         (valid_combinations g adds \<noteq> [] \<longrightarrow>
            (\<exists>c \<in> set (valid_combinations g adds).
               check_word_valid g rnd adds = Inr (fill_wildcards (map lower_c c) adds))) \<and>
         (\<forall>c \<in> set (valid_combinations g adds).
            (\<exists>r. check_word_valid g r adds = Inr (fill_wildcards (map lower_c c) adds)) \<and>
            (\<forall>l \<in> set (map lower_c c). islower_c l) \<and>
            (\<forall>r. check_word_valid g r (fill_wildcards (map lower_c c) adds)
                   = Inr (fill_wildcards (map lower_c c) adds)))"
proof (intro conjI impI ballI allI)
  show "set (valid_combinations g adds) =
           {c. length c = length (wildcard_positions adds) \<and> set c \<subseteq> set ascii_uppercase \<and>
               all_words_valid g (fill_wildcards c adds)}"
    by (simp add: set_valid_combinations wildcard_positions_def)
next
  assume "valid_combinations g adds = []"
  then show "check_word_valid g rnd adds = Inl (NoValidCombination (wildcard_positions adds))"
    by (simp add: check_word_valid_wildcards [OF assms])
next
  let ?v = "valid_combinations g adds"
  assume ne: "?v \<noteq> []"
  then have "?v ! (rnd mod length ?v) \<in> set ?v" by simp
  moreover have "check_word_valid g rnd adds
      = Inr (fill_wildcards (map lower_c (?v ! (rnd mod length ?v))) adds)"
    using ne by (simp add: check_word_valid_wildcards [OF assms])
  ultimately show "\<exists>c \<in> set ?v.
      check_word_valid g rnd adds = Inr (fill_wildcards (map lower_c c) adds)"
    by blast
next
  let ?v = "valid_combinations g adds"
  fix c assume c: "c \<in> set ?v"
  then obtain i where i: "i < length ?v" "?v ! i = c" by (auto simp: in_set_conv_nth)
  then have "check_word_valid g i adds = Inr (fill_wildcards (map lower_c c) adds)"
    using c by (auto simp: check_word_valid_wildcards [OF assms])
  then show "\<exists>r. check_word_valid g r adds = Inr (fill_wildcards (map lower_c c) adds)" ..
next
  fix c l assume c: "c \<in> set (valid_combinations g adds)" and l: "l \<in> set (map lower_c c)"
  from c have "set c \<subseteq> set ascii_uppercase" by (simp add: set_valid_combinations)
  then show "islower_c l"
    using l lower_of_upper_islower ascii_uppercase_isupper by auto
next
  fix c r assume "c \<in> set (valid_combinations g adds)"
  then show "check_word_valid g r (fill_wildcards (map lower_c c) adds)
      = Inr (fill_wildcards (map lower_c c) adds)"
    by (rule resolved_roundtrip [OF assms(1,2)])
qed

theorem wildcard_resolution_witness:
  "check_word_valid (Game (Rule [''cat'', ''at''])) 0
     [(CHR ''C'', (7, 7)), (CHR ''-'', (7, 8)), (CHR ''T'', (7, 9))]
     = Inr [(CHR ''C'', (7, 7)), (CHR ''a'', (7, 8)), (CHR ''T'', (7, 9))] \<and>
   check_word_valid (Game (Rule [''cat'', ''at''])) 0
     [(CHR ''C'', (7, 7)), (CHR ''a'', (7, 8)), (CHR ''T'', (7, 9))]
     = Inr [(CHR ''C'', (7, 7)), (CHR ''a'', (7, 8)), (CHR ''T'', (7, 9))]"
proof -
  let ?g = "Game (Rule [''cat'', ''at''])"
  let ?a = "[(CHR ''C'', (7, 7)), (CHR ''-'', (7, 8)), (CHR ''T'', (7, 9))] :: addition list"
  let ?r = "[(CHR ''C'', (7, 7)), (CHR ''a'', (7, 8)), (CHR ''T'', (7, 9))] :: addition list"
  have h1: "on_board ?a" by code_simp
  have h2: "free_cells ?g ?a" by code_simp
  have h3: "\<exists>a \<in> set ?a. is_wildcard a" by code_simp
  have vc: "valid_combinations ?g ?a = [''A'']" by code_simp
  have fl: "fill_wildcards (map lower_c ''A'') ?a = ?r" by code_simp
  note th = wildcard_resolution [OF h1 h2 h3, of 0]
  from th have "\<exists>c \<in> set (valid_combinations ?g ?a).
      check_word_valid ?g 0 ?a = Inr (fill_wildcards (map lower_c c) ?a)"
    unfolding vc by blast
  then have 1: "check_word_valid ?g 0 ?a = Inr ?r" unfolding vc using fl by simp
  from th have "\<forall>c \<in> set (valid_combinations ?g ?a).
      \<forall>r. check_word_valid ?g r (fill_wildcards (map lower_c c) ?a)
        = Inr (fill_wildcards (map lower_c c) ?a)"
    by blast
  then have 2: "check_word_valid ?g 0 ?r = Inr ?r" unfolding vc using fl by simp
  from 1 2 show ?thesis by (rule conjI)
qed

section \<open>Properties of \<open>new_move\<close>\<close>

lemma verify_word_addition_Inr:
  assumes "verify_word_addition g adds = Inr ok"
  shows "ok \<and> adds \<noteq> [] \<and> on_board adds \<and> free_cells g adds"
proof -
  have ne: "adds \<noteq> []" using assms by (auto simp: verify_word_addition_def)
  have f1: "find (\<lambda>(_, p). \<not> in_bounds p) adds = None"
    using assms ne by (auto simp: verify_word_addition_def split: option.splits)
  have f2: "find (\<lambda>(_, p). bget (board g) p \<noteq> None) adds = None"
    using assms ne f1 by (auto simp: verify_word_addition_def split: option.splits)
  have ok: "ok"
    using assms ne f1 f2 by (auto simp: verify_word_addition_def Let_def split: if_splits)
  have "on_board adds" using f1 by (auto simp: find_None_iff on_board_def)
  moreover have "free_cells g adds" using f2 by (auto simp: find_None_iff free_cells_def)
  ultimately show ?thesis using ok ne by simp
qed

lemma check_board_valid_Inr: "check_board_valid g adds = Inr ok \<Longrightarrow> ok"
  by (auto simp: check_board_valid_def split: if_splits)

lemma check_word_valid_snd:
  assumes "check_word_valid g rnd adds = Inr r"
  shows "map snd r = map snd adds"
proof -
  have "r = adds \<or> (\<exists>c. r = assign_wildcards lower_c (wildcard_indices_of adds) c adds)"
    using assms
    by (auto simp: check_word_valid_def Let_def split: option.splits sum.splits if_splits)
  then show ?thesis
    by (auto simp: assign_wildcards_fold fold_assign_snd)
qed

lemma update_loop_valid:
  "\<forall>a \<in> set adds. pos_valid (snd a) \<Longrightarrow> update_loop b adds = (None, place_all b adds)"
proof (induction adds arbitrary: b)
  case Nil
  then show ?case by (simp add: place_all_Nil)
next
  case (Cons a rest)
  obtain l p where a: "a = (l, p)" by (cases a)
  show ?case using Cons by (simp add: a place_all_Cons)
qed

lemma update_on_board:
  assumes "on_board adds"
  shows "update g adds = (None, g\<lparr>board := place_all (board g) (uppercased adds)\<rparr>)"
proof -
  have "\<forall>a \<in> set (uppercased adds). pos_valid (snd a)"
    using assms by (auto simp: on_board_def in_bounds_pos_valid)
  from update_loop_valid [OF this] show ?thesis by (simp add: update_def)
qed

lemma on_board_snd: "map snd r = map snd adds \<Longrightarrow> on_board adds \<Longrightarrow> on_board r"
proof -
  assume "map snd r = map snd adds" and ob: "on_board adds"
  then have "snd ` set r = snd ` set adds" by (metis set_map)
  then show "on_board r"
    using ob unfolding on_board_def by (metis (no_types, lifting) image_iff)
qed

lemma score_calculator_on_board:
  "on_board adds \<Longrightarrow> \<exists>score. score_calculator g adds forced = Inr score"
  by (auto simp: score_calculator_def Let_def on_board_def in_bounds_pos_valid)

text \<open>
  Claim C2. \<open>new_move\<close> runs the geometry check, then the board rule, then the dictionary
  validation with wildcard resolution, then scoring, then the commit: the error of the first
  failing stage is the one propagated, the later stages are not reached, and the score is
  computed on the resolved placement and the board before the commit. Whenever \<open>new_move\<close>
  ends with an error, the game (its board grid) is exactly as before the call; scoring and
  commit cannot fail once the three checks have passed.
\<close>

theorem new_move_stages:
  "(\<forall>e. verify_word_addition g (uppercased additions) = Inl e \<longrightarrow>
        new_move g rnd additions = (Inl e, g)) \<and>
   (\<forall>e. verify_word_addition g (uppercased additions) = Inr True \<and>
        check_board_valid g (uppercased additions) = Inl e \<longrightarrow>
        new_move g rnd additions = (Inl e, g)) \<and>
   (\<forall>e. verify_word_addition g (uppercased additions) = Inr True \<and>
        check_board_valid g (uppercased additions) = Inr True \<and>
        check_word_valid g rnd (uppercased additions) = Inl e \<longrightarrow>
        new_move g rnd additions = (Inl e, g)) \<and>
   (\<forall>resolved. verify_word_addition g (uppercased additions) = Inr True \<and>
        check_board_valid g (uppercased additions) = Inr True \<and>
        check_word_valid g rnd (uppercased additions) = Inr resolved \<longrightarrow>
        (\<exists>score. score_calculator g resolved False = Inr score \<and>
           new_move g rnd additions =
             (Inr score, g\<lparr>board := place_all (board g) (uppercased resolved)\<rparr>))) \<and>
   (\<forall>e. fst (new_move g rnd additions) = Inl e \<longrightarrow> snd (new_move g rnd additions) = g) \<and>
   verify_word_addition g (uppercased additions) \<noteq> Inr False \<and>
   check_board_valid g (uppercased additions) \<noteq> Inr False"
proof -
  let ?a = "uppercased additions"
  have A: "new_move g rnd additions = (Inl e, g)" if "verify_word_addition g ?a = Inl e" for e
    using that by (simp add: new_move_def)
  have B: "new_move g rnd additions = (Inl e, g)"
    if "verify_word_addition g ?a = Inr True" "check_board_valid g ?a = Inl e" for e
    using that by (simp add: new_move_def)
  have C: "new_move g rnd additions = (Inl e, g)"
    if "verify_word_addition g ?a = Inr True" "check_board_valid g ?a = Inr True"
      "check_word_valid g rnd ?a = Inl e" for e
    using that by (simp add: new_move_def)
  have D: "\<exists>score. score_calculator g resolved False = Inr score \<and>
      new_move g rnd additions = (Inr score, g\<lparr>board := place_all (board g) (uppercased resolved)\<rparr>)"
    if v: "verify_word_addition g ?a = Inr True" and b: "check_board_valid g ?a = Inr True"
      and w: "check_word_valid g rnd ?a = Inr resolved" for resolved
  proof -
    have "on_board ?a" using verify_word_addition_Inr [OF v] by simp
    then have ob: "on_board resolved" using check_word_valid_snd [OF w] on_board_snd by blast
    from score_calculator_on_board [OF ob] obtain score
      where s: "score_calculator g resolved False = Inr score" by blast
    have "new_move g rnd additions = (Inr score, g\<lparr>board := place_all (board g) (uppercased resolved)\<rparr>)"
      using v b w s update_on_board [OF ob] by (simp add: new_move_def)
    with s show ?thesis by blast
  qed
  have nv: "verify_word_addition g ?a \<noteq> Inr False"
    using verify_word_addition_Inr [of g ?a False] by auto
  have nb: "check_board_valid g ?a \<noteq> Inr False"
    using check_board_valid_Inr [of g ?a False] by auto
  have E: "snd (new_move g rnd additions) = g" if f: "fst (new_move g rnd additions) = Inl e" for e
  proof (cases "verify_word_addition g ?a")
    case (Inl e1)
    then show ?thesis using A by simp
  next
    case (Inr ok)
    then have v: "verify_word_addition g ?a = Inr True" using nv by (cases ok) auto
    show ?thesis
    proof (cases "check_board_valid g ?a")
      case (Inl e2)
      then show ?thesis using B [OF v] by simp
    next
      case (Inr ok2)
      then have b: "check_board_valid g ?a = Inr True" using nb by (cases ok2) auto
      show ?thesis
      proof (cases "check_word_valid g rnd ?a")
        case (Inl e3)
        then show ?thesis using C [OF v b] by simp
      next
        case (Inr resolved)
        from D [OF v b this] f show ?thesis by auto
      qed
    qed
  qed
  from A B C D E nv nb show ?thesis by blast
qed

theorem new_move_stages_witness:
  "new_move (Game (Rule [''quite''])) 0
     [(CHR ''Q'', (7, 3)), (CHR ''U'', (7, 4)), (CHR ''I'', (7, 5)), (CHR ''T'', (7, 6)),
      (CHR ''E'', (7, 7))]
     = (Inr 48, (Game (Rule [''quite'']))\<lparr>board := place_all (board (Game (Rule [''quite''])))
         [(CHR ''Q'', (7, 3)), (CHR ''U'', (7, 4)), (CHR ''I'', (7, 5)), (CHR ''T'', (7, 6)),
          (CHR ''E'', (7, 7))]\<rparr>) \<and>
   new_move (Game (Rule [''quite''])) 0 [(CHR ''A'', (3, 7))]
     = (Inl FirstWordMustCoverStart, Game (Rule [''quite''])) \<and>
   new_move (Game (Rule [''quite''])) 0
     [(CHR ''Q'', (7, 3)), (CHR ''U'', (7, 4)), (CHR ''I'', (7, 5)), (CHR ''T'', (7, 6)),
      (CHR ''S'', (7, 7))]
     = (Inl (InvalidWords [''QUITS'']), Game (Rule [''quite'']))"
proof -
  let ?g = "Game (Rule [''quite''])"
  let ?q = "[(CHR ''Q'', (7, 3)), (CHR ''U'', (7, 4)), (CHR ''I'', (7, 5)), (CHR ''T'', (7, 6)),
      (CHR ''E'', (7, 7))] :: addition list"
  let ?s = "[(CHR ''Q'', (7, 3)), (CHR ''U'', (7, 4)), (CHR ''I'', (7, 5)), (CHR ''T'', (7, 6)),
      (CHR ''S'', (7, 7))] :: addition list"
  let ?b = "[(CHR ''A'', (3, 7))] :: addition list"
  have uq: "uppercased ?q = ?q" by code_simp
  have vq: "verify_word_addition ?g (uppercased ?q) = Inr True" by code_simp
  have bq: "check_board_valid ?g (uppercased ?q) = Inr True" by code_simp
  have wq: "check_word_valid ?g 0 (uppercased ?q) = Inr ?q" by code_simp
  have sq: "score_calculator ?g ?q False = Inr 48" by code_simp
  have vb: "verify_word_addition ?g (uppercased ?b) = Inr True" by code_simp
  have bb: "check_board_valid ?g (uppercased ?b) = Inl FirstWordMustCoverStart" by code_simp
  have vs: "verify_word_addition ?g (uppercased ?s) = Inr True" by code_simp
  have bs: "check_board_valid ?g (uppercased ?s) = Inr True" by code_simp
  have ws: "check_word_valid ?g 0 (uppercased ?s) = Inl (InvalidWords [''QUITS''])"
    by code_simp
  from new_move_stages [of ?g ?q 0] vq bq wq
  have "\<exists>score. score_calculator ?g ?q False = Inr score \<and>
      new_move ?g 0 ?q = (Inr score, ?g\<lparr>board := place_all (board ?g) (uppercased ?q)\<rparr>)"
    by blast
  then have 1: "new_move ?g 0 ?q = (Inr 48, ?g\<lparr>board := place_all (board ?g) ?q\<rparr>)"
    unfolding uq sq by auto
  from new_move_stages [of ?g ?b 0] vb bb
  have 2: "new_move ?g 0 ?b = (Inl FirstWordMustCoverStart, ?g)"
    by blast
  from new_move_stages [of ?g ?s 0] vs bs ws
  have 3: "new_move ?g 0 ?s = (Inl (InvalidWords [''QUITS'']), ?g)"
    by blast
  from 1 2 3 show ?thesis by blast
qed
section \<open>The pattern matcher returns the fitting words\<close>

subsection \<open>Characters\<close>

lemma upper_c_not_alpha: "\<not> isalpha_c c \<Longrightarrow> upper_c c = c"
  by (simp add: upper_c_def isalpha_c_def)

lemma isalpha_upper: "isalpha_c (upper_c c) = isalpha_c c"
  by (auto simp: upper_c_def isalpha_c_def isupper_c_def islower_c_def of_char_of)

lemma upper_c_eq_dash: "(upper_c c = CHR ''-'') = (c = CHR ''-'')"
proof
  assume u: "upper_c c = CHR ''-''"
  have "\<not> isalpha_c (CHR ''-'')" by (simp add: isalpha_c_def isupper_c_def islower_c_def)
  then have "\<not> isalpha_c c" using u isalpha_upper [of c] by simp
  then show "c = CHR ''-''" using u upper_c_not_alpha by simp
next
  assume "c = CHR ''-''"
  then show "upper_c c = CHR ''-''" by (simp add: upper_c_def islower_c_def)
qed

lemma upper_c_eq_underscore: "(upper_c c = CHR ''_'') = (c = CHR ''_'')"
proof
  assume u: "upper_c c = CHR ''_''"
  have "\<not> isalpha_c (CHR ''_'')" by (simp add: isalpha_c_def isupper_c_def islower_c_def)
  then have "\<not> isalpha_c c" using u isalpha_upper [of c] by simp
  then show "c = CHR ''_''" using u upper_c_not_alpha by simp
next
  assume "c = CHR ''_''"
  then show "upper_c c = CHR ''_''" by (simp add: upper_c_def islower_c_def)
qed

lemma dash_not_alpha: "\<not> isalpha_c (CHR ''-'')"
  by (simp add: isalpha_c_def isupper_c_def islower_c_def)

lemma underscore_not_alpha: "\<not> isalpha_c (CHR ''_'')"
  by (simp add: isalpha_c_def isupper_c_def islower_c_def)

lemma upper_c_eq_nonalpha: "\<not> isalpha_c x \<Longrightarrow> (upper_c c = x) = (c = x)"
proof
  assume nx: "\<not> isalpha_c x" and u: "upper_c c = x"
  then have "\<not> isalpha_c c" using isalpha_upper [of c] by simp
  then show "c = x" using u upper_c_not_alpha by simp
next
  assume nx: "\<not> isalpha_c x" and "c = x"
  then show "upper_c c = x" using upper_c_not_alpha by simp
qed

lemma special_not_alpha:
  "\<not> isalpha_c (CHR ''('')" "\<not> isalpha_c (CHR '','')" "\<not> isalpha_c (CHR '')'')"
  by (simp_all add: isalpha_c_def isupper_c_def islower_c_def)

lemma digit_not_alpha: "isdigit_c c \<Longrightarrow> \<not> isalpha_c c"
  by (auto simp: isdigit_c_def isalpha_c_def isupper_c_def islower_c_def)

lemma isdigit_upper: "isdigit_c (upper_c c) = isdigit_c c"
proof (cases "isalpha_c c")
  case True
  then have "isalpha_c (upper_c c)" by (simp add: isalpha_upper)
  then show ?thesis using True digit_not_alpha by blast
next
  case False
  then show ?thesis by (simp add: upper_c_not_alpha)
qed

lemma takeWhile_digit_upper: "takeWhile isdigit_c (upper_s r) = takeWhile isdigit_c r"
proof -
  have "takeWhile isdigit_c (map upper_c r) = map upper_c (takeWhile (isdigit_c \<circ> upper_c) r)"
    by (rule takeWhile_map)
  also have "isdigit_c \<circ> upper_c = isdigit_c" by (rule ext) (simp add: isdigit_upper)
  also have "map upper_c (takeWhile isdigit_c r) = takeWhile isdigit_c r"
  proof (rule map_idI)
    fix x assume "x \<in> set (takeWhile isdigit_c r)"
    then have "isdigit_c x" using set_takeWhileD by metis
    then show "upper_c x = x" using digit_not_alpha upper_c_not_alpha by blast
  qed
  finally show ?thesis by (simp add: upper_s_def)
qed

lemma dropWhile_digit_upper: "dropWhile isdigit_c (upper_s r) = upper_s (dropWhile isdigit_c r)"
proof -
  have "dropWhile isdigit_c (map upper_c r) = map upper_c (dropWhile (isdigit_c \<circ> upper_c) r)"
    by (rule dropWhile_map)
  also have "isdigit_c \<circ> upper_c = isdigit_c" by (rule ext) (simp add: isdigit_upper)
  finally show ?thesis by (simp add: upper_s_def)
qed

lemma upper_s_Cons: "upper_s (c # cs) = upper_c c # upper_s cs"
  by (simp add: upper_s_def)

lemma upper_s_Nil: "upper_s [] = []"
  by (simp add: upper_s_def)

lemma upper_idem: "upper_c (upper_c c) = upper_c c"
  by (auto simp: upper_c_def islower_c_def of_char_of)

subsection \<open>The validation of the matcher\<close>

lemma set_counter_keys: "set (counter_keys xs) = set xs"
  by (induction xs) auto

lemma distinct_counter_keys: "distinct (counter_keys xs)"
  by (induction xs) (auto simp: set_counter_keys distinct_removeAll)

lemma missing_fold:
  "fold (\<lambda>letter missing.
             (let count = count_list pl letter; have = count_list dl letter
              in if have < count then missing + (count - have) else missing)) ks m0
   = m0 + sum_list (map (\<lambda>l. count_list pl l - count_list dl l) ks)"
  by (induction ks arbitrary: m0) (auto simp: Let_def)

lemma missing_letters_sum:
  "missing_letters pl dl = sum_list (map (\<lambda>l. count_list pl l - count_list dl l) (counter_keys pl))"
  by (simp add: missing_letters_def missing_fold)

lemma keys_sum_size:
  assumes "\<And>l. l \<in> set xs \<Longrightarrow> f l = count N l"
  shows "sum_list (map (\<lambda>l. count_list xs l - f l) (counter_keys xs)) = size (mset xs - N)"
proof -
  have "sum_list (map (\<lambda>l. count_list xs l - f l) (counter_keys xs))
      = (\<Sum>l \<in> set xs. count_list xs l - f l)"
    using sum_list_distinct_conv_sum_set [OF distinct_counter_keys, of "\<lambda>l. count_list xs l - f l" xs]
    by (simp add: set_counter_keys)
  also have "\<dots> = (\<Sum>l \<in> set xs. count (mset xs - N) l)"
    by (rule sum.cong) (simp_all add: assms count_mset)
  also have "\<dots> = (\<Sum>l \<in> set_mset (mset xs - N). count (mset xs - N) l)"
  proof (rule sum.mono_neutral_right)
    show "finite (set xs)" by simp
    show "set_mset (mset xs - N) \<subseteq> set xs"
      by (metis in_diffD set_mset_mset subsetI)
    show "\<forall>i \<in> set xs - set_mset (mset xs - N). count (mset xs - N) i = 0"
      by (simp add: not_in_iff)
  qed
  also have "\<dots> = size (mset xs - N)"
    by (simp add: size_multiset_overloaded_eq)
  finally show ?thesis .
qed

lemma missing_letters_size:
  "missing_letters pl dl = size (mset pl - mset dl)"
  unfolding missing_letters_sum by (rule keys_sum_size) (simp add: count_mset)

lemma supply_loop_sum:
  "supply_loop needed dc ks blanks = (sum_list (map (\<lambda>l. needed l - dc l) ks) \<le> blanks)"
proof (induction ks arbitrary: blanks)
  case Nil
  then show ?case by simp
next
  case (Cons l rest)
  let ?c = "needed l" and ?h = "dc l"
  let ?S = "sum_list (map (\<lambda>l. needed l - dc l) rest)"
  show ?case
  proof (cases "?h < ?c")
    case lt: True
    show ?thesis
    proof (cases "?h + blanks < ?c")
      case True
      then have "supply_loop needed dc (l # rest) blanks = False"
        using lt by (simp add: Let_def)
      moreover have "\<not> ((?c - ?h) + ?S \<le> blanks)" using True by linarith
      ultimately show ?thesis by simp
    next
      case False
      then have "supply_loop needed dc (l # rest) blanks
          = supply_loop needed dc rest (blanks - (?c - ?h))"
        using lt by (simp add: Let_def)
      also have "\<dots> = (?S \<le> blanks - (?c - ?h))" by (rule Cons.IH)
      also have "\<dots> = ((?c - ?h) + ?S \<le> blanks)" using False by linarith
      finally show ?thesis by simp
    qed
  next
    case False
    then have "supply_loop needed dc (l # rest) blanks = supply_loop needed dc rest blanks"
      by (simp add: Let_def)
    also have "\<dots> = (?S \<le> blanks)" by (rule Cons.IH)
    also have "\<dots> = ((?c - ?h) + ?S \<le> blanks)" using False by simp
    finally show ?thesis by simp
  qed
qed

lemma count_list_upper_dash: "count_list (upper_s deck) (CHR ''-'') = count_list deck (CHR ''-'')"
  by (induction deck) (simp_all add: upper_s_def upper_c_eq_dash)

lemma upper_s_valid_pattern:
  "\<forall>c \<in> set pattern. isalpha_c c \<or> c = CHR ''_'' \<Longrightarrow>
   \<not> (\<exists>char \<in> set (upper_s pattern). \<not> (isalpha_c char \<or> char = CHR ''_''))"
  by (auto simp: upper_s_def isalpha_upper upper_c_eq_underscore)

lemma upper_s_valid_deck:
  "\<forall>c \<in> set deck. isalpha_c c \<or> c = CHR ''-'' \<Longrightarrow>
   \<not> (\<exists>char \<in> set (upper_s deck). \<not> (isalpha_c char \<or> char = CHR ''-''))"
  by (auto simp: upper_s_def isalpha_upper upper_c_eq_dash)

lemma check_deck_valid:
  assumes "\<forall>c \<in> set deck. isalpha_c c \<or> c = CHR ''-''"
  shows "check_deck pl (upper_s deck) =
     (if size (mset pl - rack_letters deck) > rack_blanks deck
      then Some (InsufficientDeck (size (mset pl - rack_letters deck)) (rack_blanks deck))
      else None)"
  using upper_s_valid_deck [OF assms]
  by (simp add: check_deck_def Let_def missing_letters_size rack_letters_def rack_blanks_def
      count_list_upper_dash)

lemma spg_verify_valid:
  assumes "pattern \<noteq> []" and "\<forall>c \<in> set pattern. isalpha_c c \<or> c = CHR ''_''"
    and "\<forall>c \<in> set deck. isalpha_c c \<or> c = CHR ''-''"
  shows "spg_verify_pattern pattern deck =
     (if fixed_shortfall pattern deck > rack_blanks deck
      then Some (InsufficientDeck (fixed_shortfall pattern deck) (rack_blanks deck))
      else None)"
  using assms(1) upper_s_valid_pattern [OF assms(2)]
  by (simp add: spg_verify_pattern_def Let_def check_deck_valid [OF assms(3)]
      fixed_shortfall_def fixed_letters_of_def)

subsection \<open>The implicit deck\<close>

lemma calculate_implicit_deck_fold:
  "calculate_implicit_deck pattern deck = fold implicit_step (upper_s pattern) (upper_s deck)"
  unfolding calculate_implicit_deck_def implicit_step_def by (rule refl)

lemma diff_add_mset_in:
  "c \<in># L \<Longrightarrow> add_mset c M - L = M - (L - {#c#})"
  by (rule multiset_eqI) (auto simp: count_greater_zero_iff [symmetric] simp del: count_greater_zero_iff)

lemma diff_add_mset_notin:
  "c \<notin># L \<Longrightarrow> add_mset c M - L = add_mset c (M - L)"
  by (rule multiset_eqI) (auto simp: not_in_iff)

lemma diff_notin_add_mset:
  "c \<notin># L \<Longrightarrow> L - add_mset c M = L - M"
  by (rule multiset_eqI) (auto simp: not_in_iff)

lemma implicit_fold_invariant:
  "filter_mset isalpha_c (mset (fold implicit_step ps d))
      = filter_mset isalpha_c (mset d) - filter_mset isalpha_c (mset ps) \<and>
   count (mset (fold implicit_step ps d)) (CHR ''-'')
      = count (mset d) (CHR ''-'')
        - size (filter_mset isalpha_c (mset ps) - filter_mset isalpha_c (mset d)) \<and>
   set (fold implicit_step ps d) \<subseteq> set d"
proof (induction ps arbitrary: d)
  case Nil
  then show ?case by simp
next
  case (Cons c ps)
  let ?L = "filter_mset isalpha_c (mset d)"
  let ?M = "filter_mset isalpha_c (mset ps)"
  let ?d' = "implicit_step c d"
  let ?L' = "filter_mset isalpha_c (mset ?d')"
  let ?r = "fold implicit_step ps ?d'"
  have f: "fold implicit_step (c # ps) d = ?r" by simp
  have A: "filter_mset isalpha_c (mset ?r) = ?L' - ?M"
    and B: "count (mset ?r) (CHR ''-'') = count (mset ?d') (CHR ''-'') - size (?M - ?L')"
    and C: "set ?r \<subseteq> set ?d'"
    using Cons.IH [of ?d'] by blast+
  show ?case
  proof (cases "isalpha_c c")
    case False
    then have d': "?d' = d" by (simp add: implicit_step_def)
    have m: "filter_mset isalpha_c (mset (c # ps)) = ?M" using False by simp
    show ?thesis unfolding f m using A B C unfolding d' by blast
  next
    case alpha: True
    have m: "filter_mset isalpha_c (mset (c # ps)) = add_mset c ?M" using alpha by simp
    show ?thesis
    proof (cases "c \<in> set d")
      case True
      then have d': "?d' = remove1 c d" using alpha by (simp add: implicit_step_def)
      have cL: "c \<in># ?L" using True alpha by simp
      have L': "?L' = ?L - {#c#}" using alpha by (simp add: d')
      have B': "count (mset ?d') (CHR ''-'') = count (mset d) (CHR ''-'')"
        using alpha dash_not_alpha by (auto simp: d')
      have 1: "(?L - {#c#}) - ?M = ?L - add_mset c ?M" by simp
      have 2: "add_mset c ?M - ?L = ?M - (?L - {#c#})" by (rule diff_add_mset_in [OF cL])
      have s: "set ?d' \<subseteq> set d" unfolding d' by (rule set_remove1_subset)
      have "filter_mset isalpha_c (mset ?r) = ?L - add_mset c ?M"
        unfolding A L' 1 by (rule refl)
      moreover have "count (mset ?r) (CHR ''-'')
          = count (mset d) (CHR ''-'') - size (add_mset c ?M - ?L)"
        unfolding B B' L' 2 by (rule refl)
      moreover have "set ?r \<subseteq> set d" using C s by (rule subset_trans)
      ultimately show ?thesis unfolding f m by blast
    next
      case notin: False
      then have cL: "c \<notin># ?L" by simp
      have 1: "?L - add_mset c ?M = ?L - ?M" by (rule diff_notin_add_mset [OF cL])
      have 2: "size (add_mset c ?M - ?L) = Suc (size (?M - ?L))"
        unfolding diff_add_mset_notin [OF cL] by simp
      show ?thesis
      proof (cases "CHR ''-'' \<in> set d")
        case True
        then have d': "?d' = remove1 (CHR ''-'') d"
          using alpha notin by (simp add: implicit_step_def)
        have L': "?L' = ?L" using dash_not_alpha by (simp add: d')
        have B': "count (mset ?d') (CHR ''-'') = count (mset d) (CHR ''-'') - 1"
          by (simp add: d')
        have s: "set ?d' \<subseteq> set d" unfolding d' by (rule set_remove1_subset)
        have "filter_mset isalpha_c (mset ?r) = ?L - add_mset c ?M"
          unfolding A L' 1 by (rule refl)
        moreover have "count (mset ?r) (CHR ''-'')
            = count (mset d) (CHR ''-'') - size (add_mset c ?M - ?L)"
          unfolding B B' L' 2 by simp
        moreover have "set ?r \<subseteq> set d" using C s by (rule subset_trans)
        ultimately show ?thesis unfolding f m by blast
      next
        case False
        then have d': "?d' = d" using alpha notin by (simp add: implicit_step_def)
        have B0: "count (mset d) (CHR ''-'') = 0" using False by (simp add: not_in_iff)
        have "filter_mset isalpha_c (mset ?r) = ?L - add_mset c ?M"
          using A unfolding d' 1 .
        moreover have "count (mset ?r) (CHR ''-'')
            = count (mset d) (CHR ''-'') - size (add_mset c ?M - ?L)"
          using B unfolding d' B0 by simp
        moreover have "set ?r \<subseteq> set d" using C unfolding d' .
        ultimately show ?thesis unfolding f m by blast
      qed
    qed
  qed
qed

lemma implicit_counts:
  assumes "\<forall>c \<in> set deck. isalpha_c c \<or> c = CHR ''-''"
  shows "l \<noteq> CHR ''-'' \<Longrightarrow>
           count_list (calculate_implicit_deck pattern deck) l = count (remaining_letters pattern deck) l"
    and "count_list (calculate_implicit_deck pattern deck) (CHR ''-'') = remaining_blanks pattern deck"
proof -
  let ?D = "upper_s deck" and ?P = "upper_s pattern"
  let ?I = "calculate_implicit_deck pattern deck"
  note inv = implicit_fold_invariant [of ?P ?D, folded calculate_implicit_deck_fold]
  have A: "filter_mset isalpha_c (mset ?I) = remaining_letters pattern deck"
  proof -
    have "filter_mset isalpha_c (mset ?I)
        = filter_mset isalpha_c (mset ?D) - filter_mset isalpha_c (mset ?P)"
      using inv by blast
    then show ?thesis
      by (simp add: remaining_letters_def rack_letters_def fixed_letters_of_def)
  qed
  have B: "count (mset ?I) (CHR ''-'') = remaining_blanks pattern deck"
  proof -
    have "count (mset ?I) (CHR ''-'') = count (mset ?D) (CHR ''-'')
        - size (filter_mset isalpha_c (mset ?P) - filter_mset isalpha_c (mset ?D))"
      using inv by blast
    also have "count (mset ?D) (CHR ''-'') = rack_blanks deck"
      by (simp add: rack_blanks_def count_list_upper_dash count_mset)
    also have "size (filter_mset isalpha_c (mset ?P) - filter_mset isalpha_c (mset ?D))
        = fixed_shortfall pattern deck"
      by (simp add: fixed_shortfall_def rack_letters_def fixed_letters_of_def)
    finally show ?thesis by (simp add: remaining_blanks_def)
  qed
  have C: "set ?I \<subseteq> set ?D" using inv by blast
  show "count_list ?I (CHR ''-'') = remaining_blanks pattern deck"
    using B by (simp add: count_mset)
  show "count_list ?I l = count (remaining_letters pattern deck) l" if l: "l \<noteq> CHR ''-''"
  proof (cases "isalpha_c l")
    case True
    have "count_list ?I l = count (mset ?I) l" by (simp add: count_mset)
    also have "\<dots> = count (filter_mset isalpha_c (mset ?I)) l" using True by simp
    finally show ?thesis unfolding A .
  next
    case False
    have "l \<notin> set ?D" using upper_s_valid_deck [OF assms] False l by blast
    then have "l \<notin> set ?I" using C by blast
    then have 1: "count_list ?I l = 0" by simp
    have "count (filter_mset isalpha_c (mset ?I)) l = 0" using False by simp
    then show ?thesis unfolding A using 1 by simp
  qed
qed

subsection \<open>The word test\<close>

lemma zip_nth_upt:
  "length W = length P \<Longrightarrow> zip P W = map (\<lambda>i. (P ! i, W ! i)) [0..<length P]"
  by (rule nth_equalityI) simp_all

lemma fixed_check:
  assumes "length W = length P"
  shows "list_ex (\<lambda>(idx, letter). W ! idx \<noteq> letter)
           (zip (filter (\<lambda>i. isalpha_c (P ! i)) [0..<length P])
                (map (\<lambda>i. P ! i) (filter (\<lambda>i. isalpha_c (P ! i)) [0..<length P])))
       = (\<not> list_all (\<lambda>(p, w). isalpha_c p \<longrightarrow> w = p) (zip P W))"
proof -
  let ?FI = "filter (\<lambda>i. isalpha_c (P ! i)) [0..<length P]"
  have z: "zip ?FI (map (\<lambda>i. P ! i) ?FI) = map (\<lambda>i. (i, P ! i)) ?FI"
    by (simp add: zip_map2 zip_same_conv_map)
  have l: "list_ex (\<lambda>(idx, letter). W ! idx \<noteq> letter) (map (\<lambda>i. (i, P ! i)) ?FI)
      = (\<exists>i < length P. isalpha_c (P ! i) \<and> W ! i \<noteq> P ! i)"
    by (auto simp: list_ex_iff)
  have r: "list_all (\<lambda>(p, w). isalpha_c p \<longrightarrow> w = p) (zip P W)
      = (\<forall>i < length P. isalpha_c (P ! i) \<longrightarrow> W ! i = P ! i)"
    unfolding zip_nth_upt [OF assms] by (auto simp: list_all_iff)
  show ?thesis unfolding z l r by blast
qed

lemma wildcard_letters:
  assumes "length W = length P"
  shows "map (\<lambda>idx. W ! idx) (filter (\<lambda>i. P ! i = CHR ''_'') [0..<length P])
       = map snd (filter (\<lambda>(p, w). p = CHR ''_'') (zip P W))"
  unfolding zip_nth_upt [OF assms] by (simp add: filter_map comp_def)

lemma can_make_word_spec:
  assumes dk: "\<forall>c \<in> set deck. isalpha_c c \<or> c = CHR ''-''"
    and len: "length word = length pattern"
    and nd: "CHR ''-'' \<notin> set word"
  shows "can_make_word (upper_s word)
           (filter (\<lambda>i. isalpha_c (upper_s pattern ! i)) [0..<length (upper_s pattern)])
           (map (\<lambda>i. upper_s pattern ! i)
              (filter (\<lambda>i. isalpha_c (upper_s pattern ! i)) [0..<length (upper_s pattern)]))
           (filter (\<lambda>i. upper_s pattern ! i = CHR ''_'') [0..<length (upper_s pattern)])
           (count_list (calculate_implicit_deck pattern deck))
       = matches_pattern pattern deck word"
proof -
  let ?P = "upper_s pattern" and ?W = "upper_s word"
  have lw: "length ?W = length ?P" using len by (simp add: upper_s_def)
  let ?ws = "map snd (filter (\<lambda>(p, w). p = CHR ''_'') (zip ?P ?W))"
  have ndW: "CHR ''-'' \<notin> set ?W"
  proof
    assume "CHR ''-'' \<in> set ?W"
    then obtain x where "x \<in> set word" "upper_c x = CHR ''-''" by (auto simp: upper_s_def)
    then show False using nd by (simp add: upper_c_eq_dash)
  qed
  have "set ?ws \<subseteq> set ?W"
  proof
    fix x assume "x \<in> set ?ws"
    then obtain p where "(p, x) \<in> set (zip ?P ?W)" by auto
    then show "x \<in> set ?W" by (rule set_zip_rightD)
  qed
  then have ws_nd: "\<And>l. l \<in> set ?ws \<Longrightarrow> l \<noteq> CHR ''-''" using ndW by blast
  have sum: "sum_list (map (\<lambda>l. count_list ?ws l - count_list (calculate_implicit_deck pattern deck) l)
        (counter_keys ?ws))
      = size (mset ?ws - remaining_letters pattern deck)"
    by (rule keys_sum_size) (simp add: implicit_counts(1) [OF dk] ws_nd)
  show ?thesis
    unfolding can_make_word_def fixed_check [OF lw] wildcard_letters [OF lw] Let_def
      supply_loop_sum sum implicit_counts(2) [OF dk]
    by (auto simp: matches_pattern_def wildcard_chars_def len)
qed


subsection \<open>The matcher\<close>

text \<open>
  The lexicon \<open>[a-]\<close> with the pattern \<open>__\<close> and a rack of one blank: the matcher returns the
  word, although one blank cannot supply both of its characters. In \<open>__can_make_word\<close> the
  count of \<open>-\<close> in the implicit deck answers for a \<open>-\<close> of the word without being used up.
\<close>

theorem generate_blank_marker_counterexample:
  "generate ''__'' ''-'' [''a-''] = Inr [''A-''] \<and> \<not> matches_pattern ''__'' ''-'' ''a-''"
  by code_simp

text \<open>
  C5, as amended. For a non-empty pattern of letters and \<open>_\<close>, a rack of letters and \<open>-\<close> and
  a lexicon whose words do not contain the blank marker \<open>-\<close>: when the fixed letters of the
  pattern need more blanks than the rack has, the matcher raises the error that carries the
  number of missing letters and the number of blanks; otherwise it returns, in upper case and
  in the order of the lexicon, exactly the lexicon words that have the length of the pattern,
  its letters at the fixed positions, and letters under the wildcards that the remaining rack
  supplies, blanks covering the shortfall.
\<close>

theorem generate_matches:
  assumes "pattern \<noteq> []" and "\<forall>c \<in> set pattern. isalpha_c c \<or> c = CHR ''_''"
    and "\<forall>c \<in> set deck. isalpha_c c \<or> c = CHR ''-''"
    and "\<forall>w \<in> set lexicon. CHR ''-'' \<notin> set w"
  shows "generate pattern deck lexicon =
     (if fixed_shortfall pattern deck > rack_blanks deck
      then Inl (InsufficientDeck (fixed_shortfall pattern deck) (rack_blanks deck))
      else Inr (map upper_s (filter (matches_pattern pattern deck) lexicon)))"
proof (cases "fixed_shortfall pattern deck > rack_blanks deck")
  case True
  then show ?thesis
    by (simp add: generate_def spg_verify_valid [OF assms(1-3)])
next
  case False
  have lenP: "length (upper_s pattern) = length pattern" by (simp add: upper_s_def)
  have v: "spg_verify_pattern pattern deck = None"
    using False by (simp add: spg_verify_valid [OF assms(1-3)])
  have "filter (\<lambda>word. can_make_word word
           (filter (\<lambda>i. isalpha_c (upper_s pattern ! i)) [0..<length (upper_s pattern)])
           (map (\<lambda>i. upper_s pattern ! i)
              (filter (\<lambda>i. isalpha_c (upper_s pattern ! i)) [0..<length (upper_s pattern)]))
           (filter (\<lambda>i. upper_s pattern ! i = CHR ''_'') [0..<length (upper_s pattern)])
           (count_list (calculate_implicit_deck pattern deck)))
         (map upper_s (filter (\<lambda>word. length word = length (upper_s pattern)) lexicon))
      = map upper_s (filter (matches_pattern pattern deck) lexicon)"
    (is "filter ?can (map upper_s (filter ?len lexicon)) = _")
  proof -
    have "filter ?can (map upper_s (filter ?len lexicon))
        = map upper_s (filter (\<lambda>w. ?len w \<and> ?can (upper_s w)) lexicon)"
      by (simp add: filter_map comp_def conj_commute)
    also have "filter (\<lambda>w. ?len w \<and> ?can (upper_s w)) lexicon
        = filter (matches_pattern pattern deck) lexicon"
    proof (rule filter_cong [OF refl])
      fix w assume w: "w \<in> set lexicon"
      then have nd: "CHR ''-'' \<notin> set w" using assms(4) by blast
      show "(?len w \<and> ?can (upper_s w)) = matches_pattern pattern deck w"
      proof (cases "length w = length pattern")
        case True
        then show ?thesis
          using can_make_word_spec [OF assms(3) True nd] by (simp add: lenP)
      next
        case False
        then show ?thesis by (simp add: matches_pattern_def lenP)
      qed
    qed
    finally show ?thesis .
  qed
  then show ?thesis
    using False by (simp add: generate_def v Let_def)
qed

theorem generate_matches_witness:
  "generate ''C__'' ''cA-t'' [''cat'', ''cab'', ''cot'', ''dog'', ''cats'', ''Cut''] =
     Inr [''CAT'', ''CAB'', ''COT'', ''CUT''] \<and>
   map upper_s (filter (matches_pattern ''C__'' ''cA-t'')
     [''cat'', ''cab'', ''cot'', ''dog'', ''cats'', ''Cut'']) = [''CAT'', ''CAB'', ''COT'', ''CUT''] \<and>
   generate ''C_T'' ''a-'' [''cat''] = Inl (InsufficientDeck 2 1)"
proof -
  have p: "''C__'' \<noteq> []" "''C_T'' \<noteq> []" by simp_all
  have pc: "\<forall>c \<in> set ''C__''. isalpha_c c \<or> c = CHR ''_''"
    "\<forall>c \<in> set ''C_T''. isalpha_c c \<or> c = CHR ''_''" by code_simp+
  have dc: "\<forall>c \<in> set ''cA-t''. isalpha_c c \<or> c = CHR ''-''"
    "\<forall>c \<in> set ''a-''. isalpha_c c \<or> c = CHR ''-''" by code_simp+
  have lx: "\<forall>w \<in> set [''cat'', ''cab'', ''cot'', ''dog'', ''cats'', ''Cut'']. CHR ''-'' \<notin> set w"
    "\<forall>w \<in> set [''cat'']. CHR ''-'' \<notin> set w" by code_simp+
  have s1: "\<not> fixed_shortfall ''C__'' ''cA-t'' > rack_blanks ''cA-t''" by code_simp
  have s2: "fixed_shortfall ''C_T'' ''a-'' = 2" "rack_blanks ''a-'' = 1" by code_simp+
  have m: "map upper_s (filter (matches_pattern ''C__'' ''cA-t'')
     [''cat'', ''cab'', ''cot'', ''dog'', ''cats'', ''Cut'']) = [''CAT'', ''CAB'', ''COT'', ''CUT'']"
    by code_simp
  from generate_matches [OF p(1) pc(1) dc(1) lx(1)] s1 m
  have 1: "generate ''C__'' ''cA-t'' [''cat'', ''cab'', ''cot'', ''dog'', ''cats'', ''Cut''] =
     Inr [''CAT'', ''CAB'', ''COT'', ''CUT'']" by simp
  from generate_matches [OF p(2) pc(2) dc(2) lx(2)] s2
  have 2: "generate ''C_T'' ''a-'' [''cat''] = Inl (InsufficientDeck 2 1)" by simp
  from 1 m 2 show ?thesis by blast
qed

section \<open>The pattern expander returns the union of the matches\<close>

subsection \<open>The range expression and upper case\<close>

lemma match_range_tail:
  "match_range s = (case s of [] \<Rightarrow> None | c # r1 \<Rightarrow> if c \<noteq> CHR ''('' then None else range_tail r1)"
  unfolding match_range_def range_tail_def by (rule refl)

lemma range_tail_upper:
  "range_tail (upper_s r1) = map_option (\<lambda>(n, m, r). (n, m, upper_s r)) (range_tail r1)"
proof (cases "dropWhile isdigit_c r1")
  case r2: Nil
  show ?thesis
    unfolding range_tail_def takeWhile_digit_upper dropWhile_digit_upper r2
    by (simp add: Let_def upper_s_Nil)
next
  case r2: (Cons c2 r3)
  show ?thesis
  proof (cases "dropWhile isdigit_c r3")
    case r4: Nil
    show ?thesis
      unfolding range_tail_def takeWhile_digit_upper dropWhile_digit_upper r2 upper_s_Cons
      by (simp add: Let_def upper_s_Nil takeWhile_digit_upper dropWhile_digit_upper
          upper_c_eq_nonalpha special_not_alpha r4)
  next
    case r4: (Cons c3 r5)
    show ?thesis
      unfolding range_tail_def takeWhile_digit_upper dropWhile_digit_upper r2 upper_s_Cons
      by (simp add: Let_def upper_s_Cons takeWhile_digit_upper dropWhile_digit_upper
          upper_c_eq_nonalpha special_not_alpha r4)
  qed
qed

lemma match_range_upper:
  "match_range (upper_s s) = map_option (\<lambda>(n, m, r). (n, m, upper_s r)) (match_range s)"
proof (cases s)
  case Nil
  then show ?thesis by (simp add: match_range_tail upper_s_Nil)
next
  case (Cons c r1)
  then show ?thesis
    by (simp add: match_range_tail upper_s_Cons upper_c_eq_nonalpha special_not_alpha
        range_tail_upper)
qed

lemma match_range_head: "match_range (c # cs) = Some x \<Longrightarrow> c = CHR ''(''"
  by (simp add: match_range_tail split: if_splits)

subsection \<open>The expansions of a tokenised pattern\<close>

lemma set_concat_map: "(x \<in> set (concat (map F ks))) = (\<exists>k \<in> set ks. x \<in> set (F k))"
  by auto

lemma set_expand_Range:
  "set (expand (Range n m # rest)) =
     {replicate k (CHR ''_'') @ tail | k tail. n \<le> k \<and> k \<le> m \<and> tail \<in> set (expand rest)}"
proof (rule set_eqI)
  fix p
  have r: "\<And>k. (k \<in> set [n..<m + 1]) = (n \<le> k \<and> k \<le> m)" by auto
  have "(p \<in> set (expand (Range n m # rest)))
      = (\<exists>k \<in> set [n..<m + 1]. p \<in> set (map (\<lambda>tail. replicate k (CHR ''_'') @ tail) (expand rest)))"
    unfolding expand.simps by (rule set_concat_map)
  also have "\<dots> = (\<exists>k. n \<le> k \<and> k \<le> m \<and> (\<exists>tail \<in> set (expand rest). p = replicate k (CHR ''_'') @ tail))"
    unfolding Bex_def r set_map image_iff by blast
  also have "\<dots> = (p \<in> {replicate k (CHR ''_'') @ tail | k tail.
      n \<le> k \<and> k \<le> m \<and> tail \<in> set (expand rest)})"
    by blast
  finally show "(p \<in> set (expand (Range n m # rest)))
      = (p \<in> {replicate k (CHR ''_'') @ tail | k tail.
      n \<le> k \<and> k \<le> m \<and> tail \<in> set (expand rest)})" .
qed

lemma set_expand_Chr:
  "set (expand (Chr c # rest)) = {c # tail | tail. tail \<in> set (expand rest)}"
  by auto

lemma set_expand:
  "set (expand ts) = {instantiate ts ks | ks. admissible ts ks}"
proof (induction ts)
  case Nil
  then show ?case by auto
next
  case (Cons t rest)
  show ?case
  proof (cases t)
    case (Range n m)
    show ?thesis
    proof (rule set_eqI, rule iffI)
      fix p assume "p \<in> set (expand (t # rest))"
      then obtain k tail where k: "n \<le> k" "k \<le> m" and t: "tail \<in> set (expand rest)"
        and p: "p = replicate k (CHR ''_'') @ tail"
        unfolding Range set_expand_Range by blast
      from t obtain ks where "tail = instantiate rest ks" "admissible rest ks"
        unfolding Cons.IH by blast
      then have "p = instantiate (t # rest) (k # ks)" "admissible (t # rest) (k # ks)"
        using k p by (simp_all add: Range)
      then show "p \<in> {instantiate (t # rest) ks | ks. admissible (t # rest) ks}"
        by blast
    next
      fix p assume "p \<in> {instantiate (t # rest) ks | ks. admissible (t # rest) ks}"
      then obtain ks where p: "p = instantiate (t # rest) ks"
        and a: "admissible (t # rest) ks" by blast
      from a obtain k ks' where ks: "ks = k # ks'" by (cases ks) (auto simp: Range)
      from a have k: "n \<le> k" "k \<le> m" and a': "admissible rest ks'"
        by (simp_all add: ks Range)
      have "instantiate rest ks' \<in> set (expand rest)" unfolding Cons.IH using a' by blast
      moreover have "p = replicate k (CHR ''_'') @ instantiate rest ks'"
        using p by (simp add: ks Range)
      ultimately show "p \<in> set (expand (t # rest))"
        unfolding Range set_expand_Range using k by blast
    qed
  next
    case (Chr c)
    show ?thesis
    proof (rule set_eqI, rule iffI)
      fix p assume "p \<in> set (expand (t # rest))"
      then obtain tail where t: "tail \<in> set (expand rest)" and p: "p = c # tail"
        unfolding Chr set_expand_Chr by blast
      from t obtain ks where "tail = instantiate rest ks" "admissible rest ks"
        unfolding Cons.IH by blast
      then have "p = instantiate (t # rest) ks" "admissible (t # rest) ks"
        using p by (simp_all add: Chr)
      then show "p \<in> {instantiate (t # rest) ks | ks. admissible (t # rest) ks}"
        by blast
    next
      fix p assume "p \<in> {instantiate (t # rest) ks | ks. admissible (t # rest) ks}"
      then obtain ks where p: "p = c # instantiate rest ks" and a: "admissible rest ks"
        by (auto simp: Chr)
      then have "instantiate rest ks \<in> set (expand rest)" unfolding Cons.IH by blast
      then show "p \<in> set (expand (t # rest))"
        unfolding Chr set_expand_Chr using p by blast
    qed
  qed
qed

lemma expand_letters:
  "p \<in> set (expand ts) \<Longrightarrow> tokens_ok ts \<Longrightarrow>
   filter isalpha_c (upper_s p) = token_letters ts \<and>
   (\<forall>c \<in> set p. isalpha_c c \<or> c = CHR ''_'')"
proof (induction ts arbitrary: p)
  case Nil
  then show ?case by (simp add: token_letters_def upper_s_def)
next
  case (Cons t rest)
  have ok: "tokens_ok rest" using Cons.prems(2) by (simp add: tokens_ok_def)
  show ?case
  proof (cases t)
    case (Range n m)
    from Cons.prems(1) obtain k tail where t: "tail \<in> set (expand rest)"
      and p: "p = replicate k (CHR ''_'') @ tail"
      unfolding Range set_expand_Range by blast
    note IH = Cons.IH [OF t ok]
    have u: "upper_s p = replicate k (CHR ''_'') @ upper_s tail"
      by (simp add: p upper_s_def upper_c_not_alpha underscore_not_alpha)
    have "filter isalpha_c (upper_s p) = filter isalpha_c (upper_s tail)"
      unfolding u by (simp add: underscore_not_alpha)
    then show ?thesis using IH by (auto simp: token_letters_def p Range)
  next
    case (Chr c)
    from Cons.prems(1) obtain tail where t: "tail \<in> set (expand rest)" and p: "p = c # tail"
      unfolding Chr set_expand_Chr by blast
    have c: "isalpha_c c \<or> c = CHR ''_''"
      using Cons.prems(2) by (simp add: tokens_ok_def Chr)
    note IH = Cons.IH [OF t ok]
    show ?thesis
      using IH c by (auto simp: token_letters_def p upper_s_Cons isalpha_upper Chr)
  qed
qed

lemma expand_empty_iff:
  "tokens_ok ts \<Longrightarrow> ([] \<in> set (expand ts)) = can_be_empty ts"
proof (induction ts)
  case Nil
  then show ?case by (simp add: can_be_empty_def)
next
  case (Cons t rest)
  have ok: "tokens_ok rest" using Cons.prems by (simp add: tokens_ok_def)
  show ?case
  proof (cases t)
    case (Range n m)
    have nm: "n < m" using Cons.prems by (simp add: tokens_ok_def Range)
    have "([] \<in> set (expand (t # rest))) = (n = 0 \<and> [] \<in> set (expand rest))"
    proof
      assume "[] \<in> set (expand (t # rest))"
      then obtain k tail where "n \<le> k" "tail \<in> set (expand rest)"
        "[] = replicate k (CHR ''_'') @ tail"
        unfolding Range set_expand_Range by blast
      then show "n = 0 \<and> [] \<in> set (expand rest)" by simp
    next
      assume a: "n = 0 \<and> [] \<in> set (expand rest)"
      then have "[] = replicate 0 (CHR ''_'') @ [] \<and> n \<le> 0 \<and> 0 \<le> m \<and> [] \<in> set (expand rest)"
        by simp
      then show "[] \<in> set (expand (t # rest))"
        unfolding Range set_expand_Range by blast
    qed
    then show ?thesis using Cons.IH [OF ok] by (simp add: can_be_empty_def Range)
  next
    case (Chr c)
    have "[] \<notin> set (expand (t # rest))" unfolding Chr set_expand_Chr by blast
    then show ?thesis by (simp add: can_be_empty_def Chr)
  qed
qed

subsection \<open>The validation accepts what the matcher accepts\<close>

lemma verify_scan_tokens:
  "verify_scan (upper_s s) acc = Inr L \<Longrightarrow>
   L = acc @ token_letters (tokenize s) \<and> tokens_ok (tokenize s)"
proof (induction s arbitrary: acc rule: tokenize.induct)
  case 1
  then show ?case by (simp add: upper_s_Nil token_letters_def tokens_ok_def)
next
  case (2 c cs)
  show ?case
  proof (cases "match_range (c # cs)")
    case None
    then have tk: "tokenize (c # cs) = Chr c # tokenize cs" by simp
    have mu: "match_range (upper_s (c # cs)) = None" by (simp add: match_range_upper None)
    show ?thesis
    proof (cases "upper_c c = CHR ''(''")
      case True
      then have "verify_scan (upper_s (c # cs)) acc = Inl InvalidRangeFormat"
        using mu by (simp add: upper_s_Cons)
      then show ?thesis using 2(3) by simp
    next
      case np: False
      show ?thesis
      proof (cases "isalpha_c c")
        case True
        then have "verify_scan (upper_s (c # cs)) acc = verify_scan (upper_s cs) (acc @ [upper_c c])"
          using np by (simp add: upper_s_Cons isalpha_upper upper_idem)
        then have "verify_scan (upper_s cs) (acc @ [upper_c c]) = Inr L" using 2(3) by simp
        from 2(1) [OF None this] show ?thesis
          using True unfolding tk by (simp add: token_letters_def tokens_ok_def)
      next
        case False
        then have uc: "upper_c c = c" by (rule upper_c_not_alpha)
        show ?thesis
        proof (cases "c = CHR ''_''")
          case True
          have "verify_scan (upper_s (c # cs)) acc = verify_scan (upper_s cs) acc"
            unfolding upper_s_Cons uc using True False np [unfolded uc] by simp
          then have "verify_scan (upper_s cs) acc = Inr L" using 2(3) by simp
          from 2(1) [OF None this] show ?thesis
            using True False unfolding tk by (simp add: token_letters_def tokens_ok_def)
        next
          case nu: False
          have "verify_scan (upper_s (c # cs)) acc = Inl (InvalidCharacter c)"
            unfolding upper_s_Cons uc using nu False np [unfolded uc] by simp
          then show ?thesis using 2(3) by simp
        qed
      qed
    qed
  next
    case (Some x)
    obtain n m rest where x: "x = (n, m, rest)" by (cases x)
    have c: "c = CHR ''(''" using Some by (rule match_range_head)
    have tk: "tokenize (c # cs) = Range n m # tokenize rest" using Some by (simp add: x)
    have mu: "match_range (upper_s (c # cs)) = Some (n, m, upper_s rest)"
      by (simp add: match_range_upper Some x)
    have uc: "upper_c c = CHR ''(''" by (simp add: c upper_c_eq_nonalpha special_not_alpha)
    have vs: "verify_scan (upper_s (c # cs)) acc =
        (if n \<ge> m then Inl (InvalidRange n m) else verify_scan (upper_s rest) acc)"
      using mu unfolding upper_s_Cons uc by simp
    then have nm: "n < m" and r: "verify_scan (upper_s rest) acc = Inr L"
      using 2(3) by (auto split: if_splits)
    from 2(2) [OF Some x [symmetric] refl r] show ?thesis
      using nm unfolding tk by (simp add: token_letters_def tokens_ok_def)
  qed
qed

lemma generate_Inr:
  "spg_verify_pattern p deck = None \<Longrightarrow> \<exists>ms. generate p deck word_list = Inr ms"
  by (simp add: generate_def Let_def)

lemma collect_matches_union:
  assumes "\<forall>p \<in> set pats. \<exists>ms. generate p deck word_list = Inr ms"
  shows "\<exists>ws. collect_matches pats deck word_list acc = Inr ws \<and>
           set ws = set acc \<union> (\<Union>p \<in> set pats. matches_of p deck word_list) \<and>
           (distinct acc \<longrightarrow> distinct ws)"
  using assms
proof (induction pats arbitrary: acc)
  case Nil
  then show ?case by simp
next
  case (Cons p pats)
  from Cons.prems obtain ms where ms: "generate p deck word_list = Inr ms" by auto
  have rest: "\<forall>q \<in> set pats. \<exists>ms. generate q deck word_list = Inr ms"
    using Cons.prems by simp
  from Cons.IH [OF rest, of "remdups (acc @ ms)"]
  obtain ws where ws: "collect_matches pats deck word_list (remdups (acc @ ms)) = Inr ws"
    and s: "set ws = set (remdups (acc @ ms)) \<union> (\<Union>q \<in> set pats. matches_of q deck word_list)"
    and d: "distinct ws"
    by auto
  have m: "matches_of p deck word_list = set ms" by (simp add: matches_of_def ms)
  have "collect_matches (p # pats) deck word_list acc = Inr ws" by (simp add: ms ws)
  moreover have "set ws = set acc \<union> (\<Union>q \<in> set (p # pats). matches_of q deck word_list)"
    unfolding s by (auto simp: m)
  ultimately show ?case using d by blast
qed

lemma dpg_verify_None:
  assumes "dpg_verify_pattern pattern deck = None"
  shows "tokens_ok (tokenize pattern) \<and>
         check_deck (token_letters (tokenize pattern)) (upper_s deck) = None"
proof -
  from assms obtain L where L: "verify_scan (upper_s pattern) [] = Inr L"
    and c: "check_deck L (upper_s deck) = None"
    by (auto simp: dpg_verify_pattern_def split: sum.splits)
  from verify_scan_tokens [OF L] c show ?thesis by simp
qed

lemma expansion_verified:
  assumes v: "dpg_verify_pattern pattern deck = None"
    and p: "p \<in> set (expand (tokenize pattern))" and ne: "p \<noteq> []"
  shows "spg_verify_pattern p deck = None"
proof -
  note ok = dpg_verify_None [OF v]
  from expand_letters [OF p] ok
  have l: "filter isalpha_c (upper_s p) = token_letters (tokenize pattern)"
    and ch: "\<forall>c \<in> set p. isalpha_c c \<or> c = CHR ''_''" by blast+
  show ?thesis
    using ne upper_s_valid_pattern [OF ch] ok
    by (simp add: spg_verify_pattern_def Let_def l)
qed

subsection \<open>The expander\<close>

text \<open>
  The pattern \<open>(0,1)\<close> passes the validation of the expander; run length 1 gives the fixed
  pattern \<open>_\<close>, which matches a word, and run length 0 gives the empty pattern, which the
  matcher refuses: the expander raises that error and returns no union.
\<close>

theorem dpg_generate_optional_only_counterexample:
  "dpg_verify_pattern ''(0,1)'' ''A'' = None \<and>
   admissible (tokenize ''(0,1)'') [1] \<and>
   generate (instantiate (tokenize ''(0,1)'') [1]) ''A'' [''a''] = Inr [''A''] \<and>
   dpg_generate ''(0,1)'' ''A'' [''a''] = Inl EmptyPattern"
  by code_simp

text \<open>
  C6, as amended. For a pattern that passes the expander's validation and holds a letter, a
  single-cell wildcard or a range with a positive lower bound, the expander returns a list
  without duplicates whose elements are exactly the matcher's matches over all the fixed
  patterns obtained by choosing, independently for each range \<open>(n,m)\<close>, a run of \<open>k\<close>
  wildcards with \<open>n \<le> k \<le> m\<close>; and the matcher accepts each of these fixed patterns.
\<close>

theorem dpg_generate_union:
  assumes "dpg_verify_pattern pattern deck = None"
    and "\<not> can_be_empty (tokenize pattern)"
  shows "\<exists>ws. dpg_generate pattern deck word_list = Inr ws \<and> distinct ws \<and>
           set ws = (\<Union>ks \<in> {ks. admissible (tokenize pattern) ks}.
                       matches_of (instantiate (tokenize pattern) ks) deck word_list) \<and>
           (\<forall>ks. admissible (tokenize pattern) ks \<longrightarrow>
              (\<exists>ms. generate (instantiate (tokenize pattern) ks) deck word_list = Inr ms))"
proof -
  let ?ts = "tokenize pattern"
  note ok = dpg_verify_None [OF assms(1)]
  have ne: "[] \<notin> set (expand ?ts)"
    using expand_empty_iff [of ?ts] ok assms(2) by simp
  have all: "\<forall>p \<in> set (expand ?ts). \<exists>ms. generate p deck word_list = Inr ms"
  proof
    fix p assume p: "p \<in> set (expand ?ts)"
    then have "p \<noteq> []" using ne by blast
    from generate_Inr [OF expansion_verified [OF assms(1) p this]]
    show "\<exists>ms. generate p deck word_list = Inr ms" .
  qed
  from collect_matches_union [OF all, of "[]"]
  obtain ws where ws: "collect_matches (expand ?ts) deck word_list [] = Inr ws"
    and s: "set ws = (\<Union>p \<in> set (expand ?ts). matches_of p deck word_list)"
    and d: "distinct ws" by auto
  have g: "dpg_generate pattern deck word_list = Inr ws"
    by (simp add: dpg_generate_def assms(1) list_all_patterns_def ws)
  have s': "set ws = (\<Union>ks \<in> {ks. admissible ?ts ks}.
                       matches_of (instantiate ?ts ks) deck word_list)"
    unfolding s set_expand by blast
  have a: "\<forall>ks. admissible ?ts ks \<longrightarrow>
              (\<exists>ms. generate (instantiate ?ts ks) deck word_list = Inr ms)"
    using all unfolding set_expand by blast
  from g d s' a show ?thesis by blast
qed

theorem dpg_generate_union_witness:
  "dpg_verify_pattern ''(0,2)T'' ''CAT'' = None \<and>
   \<not> can_be_empty (tokenize ''(0,2)T'') \<and>
   dpg_generate ''(0,2)T'' ''CAT'' [''at'', ''cat'', ''t'', ''act'', ''tea''] =
     Inr [''T'', ''AT'', ''CAT'', ''ACT''] \<and>
   (\<exists>ws. dpg_generate ''(0,2)T'' ''CAT'' [''at'', ''cat'', ''t'', ''act'', ''tea''] = Inr ws \<and>
      distinct ws \<and>
      set ws = (\<Union>ks \<in> {ks. admissible (tokenize ''(0,2)T'') ks}.
                  matches_of (instantiate (tokenize ''(0,2)T'') ks) ''CAT''
                    [''at'', ''cat'', ''t'', ''act'', ''tea'']))"
proof -
  have v: "dpg_verify_pattern ''(0,2)T'' ''CAT'' = None" by code_simp
  have e: "\<not> can_be_empty (tokenize ''(0,2)T'')" by code_simp
  have r: "dpg_generate ''(0,2)T'' ''CAT'' [''at'', ''cat'', ''t'', ''act'', ''tea''] =
     Inr [''T'', ''AT'', ''CAT'', ''ACT'']" by code_simp
  from dpg_generate_union [OF v e, of "[''at'', ''cat'', ''t'', ''act'', ''tea'']"] v e r
  show ?thesis by blast
qed

section \<open>The strategies after their search\<close>

lemma dedup_missing: "ol_getattr ''_dedup_additions_sets'' impl = Inl (AttributeError ''_dedup_additions_sets'')"
  by (simp add: ol_getattr_def OptimiserLength_attributes_def)

text \<open>
  C3. When the Prize-Seeking strategy, or the Crossword strategy, has collected at least one
  candidate, the rest of its \<open>recommend_next_move\<close> raises the \<open>AttributeError\<close> of
  \<open>_dedup_additions_sets\<close>, whatever such a method would compute; with no candidate it
  returns the empty list. So it returns a list only when it has collected no candidate.
\<close>

theorem dedup_attribute_error:
  "(candidates \<noteq> [] \<longrightarrow>
      prize_best dedup candidates = Inl (AttributeError ''_dedup_additions_sets'') \<and>
      crossword_best dedup candidates = Inl (AttributeError ''_dedup_additions_sets'')) \<and>
   (candidates = [] \<longrightarrow>
      prize_best dedup candidates = Inr [] \<and> crossword_best dedup candidates = Inr []) \<and>
   ((\<exists>r. prize_best dedup candidates = Inr r) = (candidates = [])) \<and>
   ((\<exists>r. crossword_best dedup candidates = Inr r) = (candidates = []))"
  by (simp add: prize_best_def crossword_best_def dedup_missing Let_def)

theorem dedup_attribute_error_witness:
  "prize_best remdups
     [(4, [(CHR ''A'', (7, 7)), (CHR ''T'', (7, 8))]), (4, [(CHR ''A'', (7, 7)), (CHR ''T'', (8, 7))])]
     = Inl (AttributeError ''_dedup_additions_sets'') \<and>
   crossword_best remdups [(2, [(CHR ''A'', (6, 7))])]
     = Inl (AttributeError ''_dedup_additions_sets'') \<and>
   prize_best remdups [] = Inr [] \<and> crossword_best remdups [] = Inr []"
  using dedup_attribute_error [of "[(4, [(CHR ''A'', (7, 7)), (CHR ''T'', (7, 8))]),
      (4, [(CHR ''A'', (7, 7)), (CHR ''T'', (8, 7))])]" remdups]
    dedup_attribute_error [of "[(2, [(CHR ''A'', (6, 7))])]" remdups]
    dedup_attribute_error [of "[]" remdups]
  by simp

text \<open>
  C4 at an opening move. On the empty board with the rack \<open>A\<close>, \<open>T\<close> and \<open>at\<close> in the lexicon,
  the pattern \<open>(1,3)\<close> of the centre anchor yields \<open>AT\<close>; both placements of it through the
  centre are valid, cover the double-word centre and score 4. With these two candidates the
  Prize-Seeking strategy raises, and so does the aggregator, where the claim has it return the
  strategy's list under \<open>PrizeCells\<close>.
\<close>

theorem aggregate_opening_raises:
  "dpg_generate ''(1,3)'' ''AT'' (scrabble_dictionary (rule (Game (Rule [''at''])))) = Inr [''AT''] \<and>
   word_multiplier (rule (Game (Rule [''at'']))) (7, 7) = 2 \<and>
   check_word_valid (Game (Rule [''at''])) 0 [(CHR ''A'', (7, 7)), (CHR ''T'', (7, 8))]
     = Inr [(CHR ''A'', (7, 7)), (CHR ''T'', (7, 8))] \<and>
   check_word_valid (Game (Rule [''at''])) 0 [(CHR ''A'', (7, 7)), (CHR ''T'', (8, 7))]
     = Inr [(CHR ''A'', (7, 7)), (CHR ''T'', (8, 7))] \<and>
   score_calculator (Game (Rule [''at''])) [(CHR ''A'', (7, 7)), (CHR ''T'', (7, 8))] False = Inr 4 \<and>
   score_calculator (Game (Rule [''at''])) [(CHR ''A'', (7, 7)), (CHR ''T'', (8, 7))] False = Inr 4 \<and>
   aggregate_recommend (Game (Rule [''at''])) (Inr [])
     (prize_best remdups
        [(4, [(CHR ''A'', (7, 7)), (CHR ''T'', (7, 8))]),
         (4, [(CHR ''A'', (7, 7)), (CHR ''T'', (8, 7))])])
     (Inr [])
     = Inl (AttributeError ''_dedup_additions_sets'')"
  by code_simp

theorem aggregate_opening_raises_witness:
  "aggregate_recommend (Game (Rule [''at''])) (Inr [])
     (prize_best remdups
        [(4, [(CHR ''A'', (7, 7)), (CHR ''T'', (7, 8))]),
         (4, [(CHR ''A'', (7, 7)), (CHR ''T'', (8, 7))])])
     (Inr [])
     \<noteq> Inr [(''PrizeCells'',
              [WithScore [(CHR ''A'', (7, 7)), (CHR ''T'', (7, 8))] 4,
               WithScore [(CHR ''A'', (7, 7)), (CHR ''T'', (8, 7))] 4])]"
  using aggregate_opening_raises by simp

text \<open>
  The Longest-Word strategy returns its best placements without a score.
\<close>

lemma longest_best_placements:
  "longest_best (Game (Rule [''at''])) [[(CHR ''A'', (7, 7)), (CHR ''T'', (7, 8))]]
    = [Placement [(CHR ''A'', (7, 7)), (CHR ''T'', (7, 8))]]"
  by code_simp

end
